theory Spec2Isabelle
  imports Complex_Main
begin

section \<open>The lyrics-to-slides pipeline of \<^verbatim>\<open>app.py\<close>\<close>

text \<open>
  A shallow embedding of the text pipeline and of the build route of \<^verbatim>\<open>app.py\<close>:
  \<^verbatim>\<open>chordpro_to_plain\<close>, \<^verbatim>\<open>split_groups\<close>, \<^verbatim>\<open>clean_group\<close>, \<^verbatim>\<open>chunk_even\<close>,
  \<^verbatim>\<open>generate\<close> and \<^verbatim>\<open>build\<close>.

  A Python \<^verbatim>\<open>str\<close> is a sequence of Unicode code points, so a string is modelled as a
  list of natural numbers (the code points); \<open>py\<close> turns an ASCII literal into such a list.
  Python's \<^verbatim>\<open>int\<close> is \<^typ>\<open>int\<close>. Exceptions are values of the type \<open>error\<close>.
\<close>

subsection \<open>Strings and errors\<close>

type_synonym pystr = "nat list"

definition py :: "string \<Rightarrow> pystr" where
  "py s = map of_char s"

datatype error =
  ZeroDivisionError
  | RequestError pystr
  | Abort nat pystr
  | OSError
  | UnicodeDecodeError

subsection \<open>The even chunker: \<^verbatim>\<open>chunk_even\<close>\<close>

text \<open>
  \<^verbatim>\<open>g[i:j]\<close> for a list: a negative bound counts from the end, and every bound is clamped
  to the list, so a slice never raises.
\<close>

definition py_slice :: "'a list \<Rightarrow> int \<Rightarrow> int \<Rightarrow> 'a list" where
  "py_slice xs i j =
     (let n = int (length xs);
          lo = (if i < 0 then max (i + n) 0 else min i n);
          hi = (if j < 0 then max (j + n) 0 else min j n)
      in take (nat (hi - lo)) (drop (nat lo) xs))"

text \<open>
  \<^verbatim>\<open>math.ceil(n / maxl)\<close> for a divisor that is not zero (the caller raises
  \<open>ZeroDivisionError\<close> before it gets here). Python computes the quotient as a double; for
  a list length below \<open>2 ^ 53\<close> the rounded quotient has the same ceiling as the exact one,
  so the model takes the ceiling of the exact quotient.
\<close>

definition math_ceil_div :: "int \<Rightarrow> int \<Rightarrow> int" where
  "math_ceil_div n d = \<lceil>real_of_int n / real_of_int d\<rceil>"

text \<open>
  The loop \<^verbatim>\<open>for i in range(num)\<close> of \<^verbatim>\<open>chunk_even\<close>, with its variables \<open>idx\<close> and
  \<open>out\<close>; \<open>i\<close> is the loop counter.
\<close>

function chunk_loop ::
  "'a list \<Rightarrow> int \<Rightarrow> int \<Rightarrow> int \<Rightarrow> int \<Rightarrow> int \<Rightarrow> 'a list list \<Rightarrow> 'a list list" where
  "chunk_loop g num base rem i idx out =
     (if i < num
      then (let sz = base + (if i < rem then 1 else 0)
            in chunk_loop g num base rem (i + 1) (idx + sz) (out @ [py_slice g idx (idx + sz)]))
      else out)"
  by pat_completeness auto
termination
  by (relation "measure (\<lambda>(g, num, base, rem, i, idx, out). nat (num - i))") auto

declare chunk_loop.simps [simp del]

text \<open>
  \<^verbatim>\<open>chunk_even(g, maxl)\<close>. The true division \<^verbatim>\<open>n / maxl\<close> raises for \<open>maxl = 0\<close>, and the
  floor division \<^verbatim>\<open>n // num\<close> raises for \<open>num = 0\<close>.
\<close>

definition chunk_even :: "'a list \<Rightarrow> int \<Rightarrow> error + 'a list list" where
  "chunk_even g maxl =
     (let n = int (length g) in
      if n \<le> maxl then Inr [g]
      else if maxl = 0 then Inl ZeroDivisionError
      else let num = math_ceil_div n maxl in
           if num = 0 then Inl ZeroDivisionError
           else let base = n div num; rem = n mod num
                in Inr (chunk_loop g num base rem 0 0 []))"

text \<open>
  Closed forms used in the proofs about the loop: the size of chunk \<open>i\<close> and the index
  at which it starts.
\<close>

definition chunk_sz :: "int \<Rightarrow> int \<Rightarrow> int \<Rightarrow> int" where
  "chunk_sz base rem i = base + (if i < rem then 1 else 0)"

definition chunk_start :: "int \<Rightarrow> int \<Rightarrow> int \<Rightarrow> int" where
  "chunk_start base rem i = i * base + min i rem"

subsection \<open>The grouper: \<^verbatim>\<open>split_groups\<close>\<close>

text \<open>
  The loop \<^verbatim>\<open>for ln in lines\<close> of \<^verbatim>\<open>split_groups\<close>, with its variables \<open>groups\<close> and
  \<open>buf\<close>; a Python list is true when it is not empty.
\<close>

fun split_groups_loop ::
  "pystr list \<Rightarrow> pystr list list \<Rightarrow> pystr list \<Rightarrow> pystr list list \<times> pystr list" where
  "split_groups_loop [] groups buf = (groups, buf)"
| "split_groups_loop (line # lines) groups buf =
     (if line = []
      then (if buf \<noteq> [] then split_groups_loop lines (groups @ [buf]) []
            else split_groups_loop lines groups buf)
      else split_groups_loop lines groups (buf @ [line]))"

definition split_groups :: "pystr list \<Rightarrow> pystr list list" where
  "split_groups lines =
     (case split_groups_loop lines [] [] of
        (groups, buf) \<Rightarrow> if buf \<noteq> [] then groups @ [buf] else groups)"

text \<open>
  What the grouper's claims speak of: a line sequence made of \<open>lead\<close> empty lines and
  then runs \<open>r\<close>, each followed by \<open>m\<close> empty lines. The runs are maximal runs of
  non-empty lines when every run is non-empty, has no empty line, and every run but the
  last is followed by at least one empty line.
\<close>

definition lines_of_runs :: "nat \<Rightarrow> (pystr list \<times> nat) list \<Rightarrow> pystr list" where
  "lines_of_runs lead rs = replicate lead [] @ concat (map (\<lambda>(r, m). r @ replicate m []) rs)"

definition valid_runs :: "(pystr list \<times> nat) list \<Rightarrow> bool" where
  "valid_runs rs \<longleftrightarrow>
     (\<forall>(r, m)\<in>set rs. r \<noteq> [] \<and> [] \<notin> set r) \<and> (\<forall>(r, m)\<in>set (butlast rs). 0 < m)"

text \<open>The last step of \<^verbatim>\<open>split_groups\<close>, on the state the loop ends in.\<close>

definition close_buf :: "pystr list list \<times> pystr list \<Rightarrow> pystr list list" where
  "close_buf st = (case st of (groups, buf) \<Rightarrow> if buf \<noteq> [] then groups @ [buf] else groups)"

subsection \<open>The cleaner: \<^verbatim>\<open>clean_group\<close>\<close>

text \<open>\<^verbatim>\<open>sub in s\<close> for strings: \<open>sub\<close> occurs in \<open>s\<close> as a substring.\<close>

fun str_contains :: "pystr \<Rightarrow> pystr \<Rightarrow> bool" where
  "str_contains sub [] = (sub = [])"
| "str_contains sub (c # s) = (take (length sub) (c # s) = sub \<or> str_contains sub s)"

definition clean_group :: "pystr list \<Rightarrow> pystr list" where
  "clean_group g = filter (\<lambda>line. \<not> str_contains (py '':'') line) g"

subsection \<open>The markup stripper: \<^verbatim>\<open>chordpro_to_plain\<close>\<close>

text \<open>
  \<^verbatim>\<open>str.splitlines()\<close>: a line ends at \<^verbatim>\<open>\n\<close>, \<^verbatim>\<open>\r\<close>, \<^verbatim>\<open>\r\n\<close>, \<^verbatim>\<open>\v\<close>, \<^verbatim>\<open>\f\<close>,
  \<^verbatim>\<open>\x1c\<close>, \<^verbatim>\<open>\x1d\<close>, \<^verbatim>\<open>\x1e\<close>, \<^verbatim>\<open>\x85\<close>, \<^verbatim>\<open>U+2028\<close> or \<^verbatim>\<open>U+2029\<close>; the line ends are
  not kept, and a line end at the end of the text starts no further line. \<open>cur\<close> is the
  line read so far.
\<close>

definition is_linebreak :: "nat \<Rightarrow> bool" where
  "is_linebreak c \<longleftrightarrow> c \<in> set [10, 11, 12, 13, 28, 29, 30, 133, 8232, 8233]"

fun splitlines_from :: "pystr \<Rightarrow> pystr \<Rightarrow> pystr list" where
  "splitlines_from cur [] = (if cur = [] then [] else [cur])"
| "splitlines_from cur (c # cs) =
     (if c = 13 \<and> cs \<noteq> [] \<and> hd cs = 10 then cur # splitlines_from [] (tl cs)
      else if is_linebreak c then cur # splitlines_from [] cs
      else splitlines_from (cur @ [c]) cs)"

definition splitlines :: "pystr \<Rightarrow> pystr list" where
  "splitlines s = splitlines_from [] s"

text \<open>
  \<^verbatim>\<open>str.strip()\<close> removes the leading and trailing characters for which
  \<^verbatim>\<open>str.isspace()\<close> holds (the Unicode white space); \<^verbatim>\<open>startswith\<close> and \<^verbatim>\<open>endswith\<close>
  compare a prefix and a suffix.
\<close>

definition isspace :: "nat \<Rightarrow> bool" where
  "isspace c \<longleftrightarrow>
     (9 \<le> c \<and> c \<le> 13) \<or> (28 \<le> c \<and> c \<le> 32) \<or> c = 133 \<or> c = 160 \<or> c = 5760 \<or>
     (8192 \<le> c \<and> c \<le> 8202) \<or> c = 8232 \<or> c = 8233 \<or> c = 8239 \<or> c = 8287 \<or> c = 12288"

definition strip :: "pystr \<Rightarrow> pystr" where
  "strip s = rev (dropWhile isspace (rev (dropWhile isspace s)))"

definition startswith :: "pystr \<Rightarrow> pystr \<Rightarrow> bool" where
  "startswith s p \<longleftrightarrow> take (length p) s = p"

definition endswith :: "pystr \<Rightarrow> pystr \<Rightarrow> bool" where
  "endswith s p \<longleftrightarrow> length p \<le> length s \<and> drop (length s - length p) s = p"

text \<open>
  The two patterns of \<^verbatim>\<open>re.sub\<close> are sequences of three kinds of items: a literal
  character, an optional literal character (\<^verbatim>\<open>/?\<close>), and one or more characters other
  than a given one (\<^verbatim>\<open>[^c]+\<close>). \<open>re_match p s\<close> is the backtracking match of \<open>p\<close> at the
  start of \<open>s\<close>, as the module \<^verbatim>\<open>re\<close> finds it: an optional item is tried as present
  before absent, a repetition takes as many characters as it can and gives them back one
  by one. The result is what follows the match.
\<close>

datatype re_item = Lit nat | OptLit nat | PlusNot nat

fun first_some :: "'a option list \<Rightarrow> 'a option" where
  "first_some [] = None"
| "first_some (None # xs) = first_some xs"
| "first_some (Some r # xs) = Some r"

fun re_match :: "re_item list \<Rightarrow> pystr \<Rightarrow> pystr option" where
  "re_match [] s = Some s"
| "re_match (Lit c # p) s =
     (case s of [] \<Rightarrow> None | x # xs \<Rightarrow> if x = c then re_match p xs else None)"
| "re_match (OptLit c # p) s =
     (case (case s of [] \<Rightarrow> None | x # xs \<Rightarrow> if x = c then re_match p xs else None) of
        Some r \<Rightarrow> Some r
      | None \<Rightarrow> re_match p s)"
| "re_match (PlusNot c # p) s =
     first_some (map (\<lambda>k. re_match p (drop k s))
                     (rev [1..<Suc (length (takeWhile (\<lambda>x. x \<noteq> c) s))]))"

text \<open>
  \<^verbatim>\<open>re.sub(p, "", s)\<close>: the matches of \<open>p\<close> are looked for from left to right, each one
  starting where the one before ended, and replaced by the empty string. An empty match
  replaces nothing, and the search goes on one character further.
\<close>

function re_sub_empty :: "re_item list \<Rightarrow> pystr \<Rightarrow> pystr" where
  "re_sub_empty p [] = []"
| "re_sub_empty p (c # cs) =
     (case re_match p (c # cs) of
        None \<Rightarrow> c # re_sub_empty p cs
      | Some r \<Rightarrow> if length r < length (c # cs) then re_sub_empty p r else c # re_sub_empty p cs)"
  by pat_completeness auto
termination
  by (relation "measure (\<lambda>(p, s). length s)") auto

declare re_match.simps [simp del]
declare re_sub_empty.simps [simp del]

text \<open>The patterns \<^verbatim>\<open>\[/?[^\]]+\]\<close> and \<^verbatim>\<open><[^>]+>\<close>.\<close>

definition bracket_re :: "re_item list" where
  "bracket_re = [Lit (of_char CHR ''[''), OptLit (of_char CHR ''/''), PlusNot (of_char CHR '']''), Lit (of_char CHR '']'')]"

definition angle_re :: "re_item list" where
  "angle_re = [Lit (of_char CHR ''<''), PlusNot (of_char CHR ''>''), Lit (of_char CHR ''>'')]"

text \<open>The loop \<^verbatim>\<open>for ln in cp.splitlines()\<close> with its variable \<open>out\<close>.\<close>

fun chordpro_loop :: "pystr list \<Rightarrow> pystr list \<Rightarrow> pystr list" where
  "chordpro_loop [] out = out"
| "chordpro_loop (line # lines) out =
     (let l = strip line in
      if startswith l (py ''{'') \<and> endswith l (py ''}'') then chordpro_loop lines out
      else chordpro_loop lines (out @ [re_sub_empty angle_re (re_sub_empty bracket_re l)]))"

definition chordpro_to_plain :: "pystr \<Rightarrow> pystr list" where
  "chordpro_to_plain cp = chordpro_loop (splitlines cp) []"

text \<open>
  What the stripper's claim speaks of. A token opens with \<open>opn\<close>, has a non-empty
  content without \<open>cls\<close>, and closes with \<open>cls\<close>. \<open>token_rest opn cls s\<close> is what follows
  the token that \<open>s\<close> starts with, if it starts with one; \<open>remove_tokens\<close> deletes the
  tokens from left to right; \<open>has_token\<close> says that a token starts somewhere in \<open>s\<close>.
\<close>

definition token_rest :: "nat \<Rightarrow> nat \<Rightarrow> pystr \<Rightarrow> pystr option" where
  "token_rest opn cls s =
     (case s of
        [] \<Rightarrow> None
      | x # xs \<Rightarrow>
          if x = opn \<and> takeWhile (\<lambda>c. c \<noteq> cls) xs \<noteq> [] \<and> cls \<in> set xs
          then Some (tl (dropWhile (\<lambda>c. c \<noteq> cls) xs))
          else None)"

lemma token_rest_shorter: "token_rest opn cls s = Some r \<Longrightarrow> length r < length s"
proof -
  assume a: "token_rest opn cls s = Some r"
  then obtain x xs where s: "s = x # xs" by (cases s) (simp_all add: token_rest_def)
  with a have "r = tl (dropWhile (\<lambda>c. c \<noteq> cls) xs)"
    by (simp add: token_rest_def split: if_splits)
  then have "length r \<le> length xs"
    using length_dropWhile_le[of "\<lambda>c. c \<noteq> cls" xs] by simp
  with s show ?thesis by simp
qed

function remove_tokens :: "nat \<Rightarrow> nat \<Rightarrow> pystr \<Rightarrow> pystr" where
  "remove_tokens opn cls [] = []"
| "remove_tokens opn cls (c # cs) =
     (case token_rest opn cls (c # cs) of
        None \<Rightarrow> c # remove_tokens opn cls cs
      | Some r \<Rightarrow> remove_tokens opn cls r)"
  by pat_completeness auto
termination
  by (relation "measure (\<lambda>(opn, cls, s). length s)") (auto dest: token_rest_shorter)

fun has_token :: "nat \<Rightarrow> nat \<Rightarrow> pystr \<Rightarrow> bool" where
  "has_token opn cls [] = False"
| "has_token opn cls (c # cs) = (token_rest opn cls (c # cs) \<noteq> None \<or> has_token opn cls cs)"

declare remove_tokens.simps [simp del]

subsection \<open>The deck assembler: the route \<^verbatim>\<open>generate\<close>\<close>

text \<open>\<^verbatim>\<open>sep.join(xs)\<close> for strings.\<close>

fun str_join :: "pystr \<Rightarrow> pystr list \<Rightarrow> pystr" where
  "str_join sep [] = []"
| "str_join sep [x] = x"
| "str_join sep (x # y # ys) = x @ sep @ str_join sep (y # ys)"

text \<open>
  The three nested loops of \<^verbatim>\<open>generate\<close>, innermost first, each with the variable
  \<open>md_blocks\<close> it appends to. The loop over the chunks appends the rendered chunk,
  \<^verbatim>\<open>"\n".join(ln + "  " for ln in chunk)\<close>, and the separator block. The loop over the
  groups skips a group that is empty after cleaning; an exception of \<^verbatim>\<open>chunk_even\<close> ends
  the request. The loop over the URL lines skips a blank line; \<^verbatim>\<open>fetch_chordpro_url\<close> and
  \<^verbatim>\<open>download_chordpro\<close> are the two requests to the network, taken as functions that
  give the text they return or the exception they raise.
\<close>

fun chunks_loop :: "pystr list list \<Rightarrow> pystr list \<Rightarrow> pystr list" where
  "chunks_loop [] md_blocks = md_blocks"
| "chunks_loop (chunk # chunks) md_blocks =
     chunks_loop chunks
       (md_blocks @ [str_join (py ''\<newline>'') (map (\<lambda>line. line @ py ''  '') chunk)]
                  @ [py ''\<newline>---\<newline>''])"

fun groups_loop :: "pystr list list \<Rightarrow> int \<Rightarrow> pystr list \<Rightarrow> error + pystr list" where
  "groups_loop [] max_lines md_blocks = Inr md_blocks"
| "groups_loop (g # groups) max_lines md_blocks =
     (let cg = clean_group g in
      if cg = [] then groups_loop groups max_lines md_blocks
      else case chunk_even cg max_lines of
             Inl e \<Rightarrow> Inl e
           | Inr chunks \<Rightarrow> groups_loop groups max_lines (chunks_loop chunks md_blocks))"

fun urls_loop ::
  "(pystr \<Rightarrow> error + pystr) \<Rightarrow> (pystr \<Rightarrow> error + pystr) \<Rightarrow> pystr list \<Rightarrow> int \<Rightarrow> pystr list
   \<Rightarrow> error + pystr list" where
  "urls_loop fetch_chordpro_url download_chordpro [] max_lines md_blocks = Inr md_blocks"
| "urls_loop fetch_chordpro_url download_chordpro (url # urls) max_lines md_blocks =
     (let u = strip url in
      if u = [] then urls_loop fetch_chordpro_url download_chordpro urls max_lines md_blocks
      else case fetch_chordpro_url u of
             Inl e \<Rightarrow> Inl e
           | Inr txt_url \<Rightarrow>
               (case download_chordpro txt_url of
                  Inl e \<Rightarrow> Inl e
                | Inr cp_text \<Rightarrow>
                    (case groups_loop (split_groups (chordpro_to_plain cp_text)) max_lines md_blocks of
                       Inl e \<Rightarrow> Inl e
                     | Inr md_blocks' \<Rightarrow>
                         urls_loop fetch_chordpro_url download_chordpro urls max_lines md_blocks')))"

text \<open>
  \<^verbatim>\<open>generate\<close>, from the form field \<^verbatim>\<open>urls\<close> and the integer read from the field
  \<^verbatim>\<open>max_lines\<close>, to the text \<^verbatim>\<open>full_md\<close> that is handed to the editor template.
\<close>

definition generate ::
  "(pystr \<Rightarrow> error + pystr) \<Rightarrow> (pystr \<Rightarrow> error + pystr) \<Rightarrow> pystr \<Rightarrow> int \<Rightarrow> error + pystr" where
  "generate fetch_chordpro_url download_chordpro urls_field max_lines =
     (case urls_loop fetch_chordpro_url download_chordpro (splitlines urls_field) max_lines
             [py ''---\<newline>''] of
        Inl e \<Rightarrow> Inl e
      | Inr md_blocks \<Rightarrow> Inr (strip (str_join (py ''\<newline>'') md_blocks)))"

text \<open>
  What the assembler's claim speaks of. The chunks of a run, in the order in which the
  loops produce them: \<open>group_chunks\<close> for the groups of one document, \<open>url_chunks\<close> for
  the URL lines. The deck of a sequence of chunks: the leading separator and, for every
  chunk, an empty line, the lines of the chunk with two spaces appended to each, an empty
  line, and a separator. \<open>split_on\<close> cuts a text into its lines at a character.
\<close>

fun group_chunks :: "pystr list list \<Rightarrow> int \<Rightarrow> error + pystr list list" where
  "group_chunks [] max_lines = Inr []"
| "group_chunks (g # groups) max_lines =
     (if clean_group g = [] then group_chunks groups max_lines
      else case chunk_even (clean_group g) max_lines of
             Inl e \<Rightarrow> Inl e
           | Inr chunks \<Rightarrow>
               (case group_chunks groups max_lines of
                  Inl e \<Rightarrow> Inl e
                | Inr rest \<Rightarrow> Inr (chunks @ rest)))"

fun url_chunks ::
  "(pystr \<Rightarrow> error + pystr) \<Rightarrow> (pystr \<Rightarrow> error + pystr) \<Rightarrow> pystr list \<Rightarrow> int
   \<Rightarrow> error + pystr list list" where
  "url_chunks F D [] max_lines = Inr []"
| "url_chunks F D (url # urls) max_lines =
     (if strip url = [] then url_chunks F D urls max_lines
      else case F (strip url) of
             Inl e \<Rightarrow> Inl e
           | Inr txt_url \<Rightarrow>
               (case D txt_url of
                  Inl e \<Rightarrow> Inl e
                | Inr cp_text \<Rightarrow>
                    (case group_chunks (split_groups (chordpro_to_plain cp_text)) max_lines of
                       Inl e \<Rightarrow> Inl e
                     | Inr chunks \<Rightarrow>
                         (case url_chunks F D urls max_lines of
                            Inl e \<Rightarrow> Inl e
                          | Inr rest \<Rightarrow> Inr (chunks @ rest)))))"

definition deck_text :: "pystr list list \<Rightarrow> pystr" where
  "deck_text chunks =
     py ''---'' @
     concat (map (\<lambda>chunk. py ''\<newline>\<newline>'' @ str_join (py ''\<newline>'') (map (\<lambda>line. line @ py ''  '') chunk)
                           @ py ''\<newline>\<newline>---'') chunks)"

fun split_on :: "nat \<Rightarrow> pystr \<Rightarrow> pystr list" where
  "split_on c [] = [[]]"
| "split_on c (x # xs) =
     (if x = c then [] # split_on c xs
      else (case split_on c xs of [] \<Rightarrow> [[x]] | l # ls \<Rightarrow> (x # l) # ls))"

text \<open>
  Auxiliary forms for the proofs: the blocks appended for a sequence of chunks, the deck
  after its leading separator, and the lines a chunk contributes to the deck.
\<close>

definition blocks_of :: "pystr list list \<Rightarrow> pystr list" where
  "blocks_of chunks =
     concat (map (\<lambda>chunk. [str_join (py ''\<newline>'') (map (\<lambda>line. line @ py ''  '') chunk),
                            py ''\<newline>---\<newline>'']) chunks)"

definition deck_body :: "pystr list list \<Rightarrow> pystr" where
  "deck_body chunks =
     concat (map (\<lambda>chunk. py ''\<newline>\<newline>'' @ str_join (py ''\<newline>'') (map (\<lambda>line. line @ py ''  '') chunk)
                           @ py ''\<newline>\<newline>---'') chunks)"

definition chunk_lines :: "pystr list \<Rightarrow> pystr list" where
  "chunk_lines chunk =
     [[]] @ (if chunk = [] then [[]] else map (\<lambda>line. line @ py ''  '') chunk) @ [[], py ''---'']"

subsection \<open>The build route: \<^verbatim>\<open>build\<close>\<close>

text \<open>
  The state that \<^verbatim>\<open>build\<close> reads and writes: the global dictionary \<^verbatim>\<open>builds\<close> and the
  file system, a map from paths to directories and files. The external builder is a
  function \<open>subprocess_run\<close> from the argument vector and the file system to the outcome
  of \<^verbatim>\<open>subprocess.run(..., text=True, check=True)\<close> and the file system the process
  leaves. There are three outcomes. The process ran, exited with a return code, and its
  captured standard output and standard error were decoded to text. The process ran and
  exited with a return code, but the captured bytes are not valid text: the decoding
  takes place after the process has ended and before the return code is looked at, and
  raises \<^verbatim>\<open>UnicodeDecodeError\<close>. Or the process could not be started (\<^verbatim>\<open>OSError\<close>).
  The answer of the route is a page with a status, a redirect, or an exception that
  leaves the route.
\<close>

datatype node = Dir | File pystr

datatype proc = Completed int pystr pystr | Undecodable int | NotStarted

datatype response = Failed error | Page nat pystr | Redirect pystr

record state =
  builds :: "pystr \<rightharpoonup> pystr"
  fs :: "pystr \<rightharpoonup> node"

text \<open>\<^verbatim>\<open>os.path.join\<close> and \<^verbatim>\<open>os.path.basename\<close> on POSIX paths.\<close>

definition os_path_join :: "pystr \<Rightarrow> pystr \<Rightarrow> pystr" where
  "os_path_join a b =
     (if startswith b (py ''/'') then b
      else if a = [] \<or> endswith a (py ''/'') then a @ b
      else a @ py ''/'' @ b)"

definition os_path_basename :: "pystr \<Rightarrow> pystr" where
  "os_path_basename p = rev (takeWhile (\<lambda>c. c \<noteq> of_char CHR ''/'') (rev p))"

text \<open>
  \<^verbatim>\<open>shutil.rmtree(path, ignore_errors=True)\<close> tries to remove the directory and everything
  below it; a removal that fails raises nothing and leaves the path where it is. Which
  removals fail is the operating system's: \<open>rm_fails p\<close> says that the removal of \<open>p\<close>
  fails (for a directory also because something below it is left).
\<close>

definition rmtree :: "(pystr \<Rightarrow> bool) \<Rightarrow> pystr \<Rightarrow> (pystr \<rightharpoonup> node) \<Rightarrow> (pystr \<rightharpoonup> node)" where
  "rmtree rm_fails path files =
     (\<lambda>p. if (p = path \<or> startswith p (path @ py ''/'')) \<and> \<not> rm_fails p then None else files p)"

text \<open>
  \<^verbatim>\<open>build\<close>, from the form field \<^verbatim>\<open>markdown\<close> and the directory \<open>tmp_root\<close> that
  \<^verbatim>\<open>tempfile.mkdtemp\<close> creates. \<^verbatim>\<open>check=True\<close> turns a return code other than zero into
  \<^verbatim>\<open>CalledProcessError\<close>, the only exception the route handles: \<^verbatim>\<open>UnicodeDecodeError\<close>
  and \<^verbatim>\<open>OSError\<close> leave the route, with no page of its own and no cleanup.
\<close>

definition build ::
  "pystr \<Rightarrow> pystr \<Rightarrow> (pystr list \<Rightarrow> (pystr \<rightharpoonup> node) \<Rightarrow> proc \<times> (pystr \<rightharpoonup> node)) \<Rightarrow> (pystr \<Rightarrow> bool)
   \<Rightarrow> state \<Rightarrow> response \<times> state" where
  "build markdown_field tmp_root subprocess_run rm_fails st =
     (let md = strip markdown_field in
      if md = [] then (Failed (Abort 400 (py ''Ingen markdown mottatt'')), st)
      else
        let site_dir = os_path_join tmp_root (py ''site'');
            md_file = os_path_join tmp_root (py ''slides.md'');
            files = (fs st)(tmp_root \<mapsto> Dir, md_file \<mapsto> File md)
        in case subprocess_run [py ''mkslides'', py ''build'', md_file, py ''--site-dir'', site_dir] files of
             (NotStarted, files') \<Rightarrow> (Failed OSError, st\<lparr>fs := files'\<rparr>)
           | (Undecodable returncode, files') \<Rightarrow> (Failed UnicodeDecodeError, st\<lparr>fs := files'\<rparr>)
           | (Completed returncode stdout stderr, files') \<Rightarrow>
               if returncode \<noteq> 0
               then (Page 500
                       (py ''<h1>Build error</h1>'' @
                        py ''<h2>Command</h2><pre>mkslides build '' @ md_file @ py '' --site-dir '' @ site_dir @ py ''</pre>'' @
                        py ''<h2>stdout</h2><pre>'' @ stdout @ py ''</pre>'' @
                        py ''<h2>stderr</h2><pre>'' @ stderr @ py ''</pre>''),
                     st\<lparr>fs := rmtree rm_fails tmp_root files'\<rparr>)
               else (let build_id = os_path_basename tmp_root
                     in (Redirect (py ''/preview/'' @ build_id @ py ''/''),
                         st\<lparr>builds := (builds st)(build_id \<mapsto> site_dir), fs := files'\<rparr>)))"

section \<open>Properties\<close>

subsection \<open>The even chunker\<close>

lemma math_ceil_div_code [code]: "math_ceil_div n d = - ((- n) div d)"
  by (simp add: math_ceil_div_def ceiling_divide_eq_div)

lemma py_slice_nonneg:
  assumes "0 \<le> i" "0 \<le> s"
  shows "py_slice xs i (i + s) = take (nat s) (drop (nat i) xs)"
proof -
  obtain a b where ab: "i = int a" "s = int b"
    using assms by (metis nat_0_le)
  show ?thesis
  proof (cases "a \<le> length xs")
    case True
    then have "take (min (a + b) (length xs) - a) (drop a xs) = take b (drop a xs)"
      by (cases "a + b \<le> length xs") (simp_all add: min_def)
    moreover have "nat (min (int a + int b) (int (length xs)) - int a) = min (a + b) (length xs) - a"
      by (auto simp: min_def)
    ultimately show ?thesis
      using True by (simp add: py_slice_def Let_def ab min_absorb1)
  next
    case False
    then show ?thesis
      by (simp add: py_slice_def Let_def ab min_def)
  qed
qed

lemma chunk_loop_concat:
  assumes "0 \<le> base" "0 \<le> rem" "rem \<le> num" "0 \<le> i" "i \<le> num"
    and "idx = chunk_start base rem i"
    and "num * base + rem = int (length g)"
  shows "concat (chunk_loop g num base rem i idx out) = concat out @ drop (nat idx) g"
  using assms
proof (induction g num base rem i idx out rule: chunk_loop.induct)
  case (1 g num base rem i idx out)
  show ?case
  proof (cases "i < num")
    case True
    define sz where "sz = base + (if i < rem then 1 else 0)"
    have sz0: "0 \<le> sz" using 1 by (simp add: sz_def)
    have idx0: "0 \<le> idx" using 1 by (simp add: chunk_start_def)
    have nxt: "idx + sz = chunk_start base rem (i + 1)"
      using 1 by (auto simp: sz_def chunk_start_def min_def algebra_simps)
    have "concat (chunk_loop g num base rem (i + 1) (idx + sz) (out @ [py_slice g idx (idx + sz)]))
          = concat (out @ [py_slice g idx (idx + sz)]) @ drop (nat (idx + sz)) g"
      using "1.IH"[OF True sz_def] 1(2-) True nxt by simp
    also have "\<dots> = concat out @ take (nat sz) (drop (nat idx) g) @ drop (nat (idx + sz)) g"
      using py_slice_nonneg[OF idx0 sz0] by simp
    also have "take (nat sz) (drop (nat idx) g) @ drop (nat (idx + sz)) g = drop (nat idx) g"
      using idx0 sz0 by (metis add.commute append_take_drop_id drop_drop nat_add_distrib)
    finally show ?thesis
      using True by (subst chunk_loop.simps) (simp add: sz_def Let_def)
  next
    case False
    with 1 have "i = num" by simp
    with 1(4,7,8) have "idx = int (length g)" by (auto simp: chunk_start_def min_def algebra_simps)
    with False show ?thesis by (subst chunk_loop.simps) simp
  qed
qed

lemma chunk_start_le:
  assumes "0 \<le> base" "rem \<le> num" "j \<le> num"
  shows "chunk_start base rem j \<le> num * base + rem"
proof -
  have "j * base \<le> num * base" using assms by (simp add: mult_right_mono)
  moreover have "min j rem \<le> rem" by simp
  ultimately show ?thesis unfolding chunk_start_def by linarith
qed

lemma chunk_loop_lengths:
  assumes "0 \<le> base" "0 \<le> rem" "rem \<le> num" "0 \<le> i" "i \<le> num"
    and "idx = chunk_start base rem i"
    and "num * base + rem = int (length g)"
  shows "map length (chunk_loop g num base rem i idx out)
         = map length out @ map (\<lambda>k. nat (chunk_sz base rem k)) [i..num - 1]"
  using assms
proof (induction g num base rem i idx out rule: chunk_loop.induct)
  case (1 g num base rem i idx out)
  show ?case
  proof (cases "i < num")
    case True
    define sz where "sz = base + (if i < rem then 1 else 0)"
    have sz0: "0 \<le> sz" using 1 by (simp add: sz_def)
    have idx0: "0 \<le> idx" using 1 by (simp add: chunk_start_def)
    have nxt: "idx + sz = chunk_start base rem (i + 1)"
      using 1 by (auto simp: sz_def chunk_start_def min_def algebra_simps)
    have "idx + sz \<le> num * base + rem"
      unfolding nxt using chunk_start_le[of base rem num "i + 1"] 1(2,4) True by simp
    then have fit: "idx + sz \<le> int (length g)" using 1(8) by simp
    have len: "length (py_slice g idx (idx + sz)) = nat sz"
      using py_slice_nonneg[OF idx0 sz0, of g] fit idx0 sz0 by simp
    have "map length (chunk_loop g num base rem (i + 1) (idx + sz) (out @ [py_slice g idx (idx + sz)]))
          = map length (out @ [py_slice g idx (idx + sz)]) @ map (\<lambda>k. nat (chunk_sz base rem k)) [i + 1..num - 1]"
      using "1.IH"[OF True sz_def] 1(2-) True nxt by simp
    also have "\<dots> = map length out @ map (\<lambda>k. nat (chunk_sz base rem k)) [i..num - 1]"
      using True len by (subst (2) upto_rec1) (simp_all add: chunk_sz_def sz_def)
    finally show ?thesis
      using True by (subst chunk_loop.simps) (simp add: sz_def Let_def)
  next
    case False
    then show ?thesis by (subst chunk_loop.simps) simp
  qed
qed

lemma math_ceil_div_bounds:
  assumes "0 < maxl"
  shows "n \<le> math_ceil_div n maxl * maxl" and "math_ceil_div n maxl * maxl < n + maxl"
proof -
  define q where "q = (- n) div maxl"
  define r where "r = (- n) mod maxl"
  have eq: "maxl * q + r = - n" unfolding q_def r_def by (rule mult_div_mod_eq)
  have r: "0 \<le> r" "r < maxl" using assms by (simp_all add: r_def)
  have c: "math_ceil_div n maxl * maxl = - (maxl * q)"
    by (simp add: math_ceil_div_code q_def)
  show "n \<le> math_ceil_div n maxl * maxl" unfolding c using eq r by linarith
  show "math_ceil_div n maxl * maxl < n + maxl" unfolding c using eq r by linarith
qed

lemma chunk_params:
  assumes pos: "0 < maxl" and big: "maxl < n"
  defines "num \<equiv> math_ceil_div n maxl"
  defines "base \<equiv> n div num"
  defines "rem \<equiv> n mod num"
  shows "1 < num" "0 \<le> base" "0 \<le> rem" "rem < num" "num * base + rem = n"
    "base \<le> maxl" "0 < rem \<Longrightarrow> base + 1 \<le> maxl"
proof -
  have up: "n \<le> num * maxl" and lo: "num * maxl < n + maxl"
    using math_ceil_div_bounds[OF pos, of n] by (simp_all add: num_def)
  show num1: "1 < num"
  proof (rule ccontr)
    assume "\<not> 1 < num"
    then have "num \<le> 1" by simp
    then have "num * maxl \<le> 1 * maxl" using pos by (intro mult_right_mono) simp_all
    with up big show False by simp
  qed
  then have num0: "0 < num" by simp
  show "0 \<le> base" using pos big num0 by (simp add: base_def pos_imp_zdiv_nonneg_iff)
  show "0 \<le> rem" "rem < num" using num0 by (simp_all add: rem_def)
  show dm: "num * base + rem = n" by (simp add: base_def rem_def)
  have r0: "0 \<le> rem" using num0 by (simp add: rem_def)
  show "base \<le> maxl"
  proof (rule ccontr)
    assume "\<not> base \<le> maxl"
    then have "maxl + 1 \<le> base" by simp
    then have "num * (maxl + 1) \<le> num * base" using num0 by (intro mult_left_mono) simp_all
    with dm r0 up num0 show False by (simp add: algebra_simps)
  qed
  show "base + 1 \<le> maxl" if "0 < rem"
  proof (rule ccontr)
    assume "\<not> base + 1 \<le> maxl"
    then have "maxl \<le> base" by simp
    then have "num * maxl \<le> num * base" using num0 by (intro mult_left_mono) simp_all
    with dm that up show False by (simp add: algebra_simps)
  qed
qed

lemma map_upto_const:
  assumes "\<And>k. i \<le> k \<Longrightarrow> k \<le> j \<Longrightarrow> f k = c"
  shows "map f [i..j] = replicate (nat (j - i + 1)) c"
proof -
  have "map f [i..j] = map (\<lambda>_. c) [i..j]"
    using assms by (intro map_cong) simp_all
  then show ?thesis by (simp add: map_replicate_const)
qed

lemma chunk_sizes_replicate:
  assumes "0 \<le> rem" "rem < num"
  shows "map (\<lambda>k. nat (chunk_sz base rem k)) [0..num - 1]
         = replicate (nat rem) (nat (base + 1)) @ replicate (nat (num - rem)) (nat base)"
proof -
  have "[0..num - 1] = [0..rem - 1] @ [rem..num - 1]"
    using assms upto_split1[of 0 rem "num - 1"] by simp
  moreover have "map (\<lambda>k. nat (chunk_sz base rem k)) [0..rem - 1] = replicate (nat rem) (nat (base + 1))"
    using map_upto_const[of 0 "rem - 1" "\<lambda>k. nat (chunk_sz base rem k)" "nat (base + 1)"]
    by (simp add: chunk_sz_def)
  moreover have "map (\<lambda>k. nat (chunk_sz base rem k)) [rem..num - 1] = replicate (nat (num - rem)) (nat base)"
    using map_upto_const[of rem "num - 1" "\<lambda>k. nat (chunk_sz base rem k)" "nat base"]
    by (simp add: chunk_sz_def)
  ultimately show ?thesis by simp
qed

lemma chunk_even_split:
  assumes pos: "0 < maxl" and big: "maxl < int (length g)"
  shows "chunk_even g maxl =
     Inr (chunk_loop g (math_ceil_div (int (length g)) maxl)
            (int (length g) div math_ceil_div (int (length g)) maxl)
            (int (length g) mod math_ceil_div (int (length g)) maxl) 0 0 [])"
  using chunk_params(1)[OF pos big] pos big by (simp add: chunk_even_def Let_def)


lemma chunk_even_concat:
  assumes "1 \<le> maxl"
  shows "\<exists>cs. chunk_even g maxl = Inr cs \<and> concat cs = g"
proof (cases "int (length g) \<le> maxl")
  case True
  then show ?thesis by (simp add: chunk_even_def)
next
  case False
  then have pos: "0 < maxl" and big: "maxl < int (length g)" using assms by simp_all
  note p = chunk_params[OF pos big]
  have "concat (chunk_loop g (math_ceil_div (int (length g)) maxl)
            (int (length g) div math_ceil_div (int (length g)) maxl)
            (int (length g) mod math_ceil_div (int (length g)) maxl) 0 0 []) = concat [] @ drop (nat 0) g"
    using p(2,3,5) less_imp_le[OF p(4)] less_imp_le[OF p(1)]
    by (intro chunk_loop_concat) (simp_all add: chunk_start_def)
  then show ?thesis by (simp add: chunk_even_split[OF pos big])
qed

lemma chunk_even_lengths:
  fixes g :: "'a list"
  assumes pos: "0 < maxl" and big: "maxl < int (length g)"
  defines "num \<equiv> math_ceil_div (int (length g)) maxl"
  shows "\<exists>cs. chunk_even g maxl = Inr cs \<and>
           map length cs =
             replicate (nat (int (length g) mod num)) (nat (int (length g) div num + 1)) @
             replicate (nat (num - int (length g) mod num)) (nat (int (length g) div num))"
proof -
  note p = chunk_params[OF pos big]
  have "map length (chunk_loop g num (int (length g) div num) (int (length g) mod num) 0 0 [])
        = map length ([] :: 'a list list) @ map (\<lambda>k. nat (chunk_sz (int (length g) div num) (int (length g) mod num) k)) [0..num - 1]"
    unfolding num_def
    using p(2,3,5) less_imp_le[OF p(4)] less_imp_le[OF p(1)]
    by (intro chunk_loop_lengths) (simp_all add: chunk_start_def)
  also have "\<dots> = replicate (nat (int (length g) mod num)) (nat (int (length g) div num + 1)) @
             replicate (nat (num - int (length g) mod num)) (nat (int (length g) div num))"
    unfolding num_def using chunk_sizes_replicate[OF p(3) p(4)] by simp
  finally show ?thesis
    by (simp add: chunk_even_split[OF pos big] num_def)
qed

text \<open>
  Claim C1. For every group \<open>g\<close> and every \<open>maxLines \<ge> 1\<close>, \<open>chunk_even\<close> returns a list of
  chunks (it does not raise), and concatenating the chunks in order gives exactly \<open>g\<close>: no
  line is dropped, duplicated or reordered. This holds for every length of \<open>g\<close>, so in
  particular for the groups of \<open>n \<ge> 1\<close> lines of the claim.
\<close>

theorem chunk_even_roundtrip:
  "1 \<le> maxl \<Longrightarrow> \<exists>cs. chunk_even g maxl = Inr cs \<and> concat cs = g"
  by (rule chunk_even_concat)

theorem chunk_even_roundtrip_witness:
  "(1::int) \<le> 3 \<and> chunk_even [1, 2, 3, 4, 5, 6, 7 :: nat] 3 = Inr [[1, 2, 3], [4, 5], [6, 7]]
   \<and> (\<exists>cs. chunk_even [1, 2, 3, 4, 5, 6, 7 :: nat] 3 = Inr cs \<and> concat cs = [1, 2, 3, 4, 5, 6, 7])"
proof -
  have e: "chunk_even [1, 2, 3, 4, 5, 6, 7 :: nat] 3 = Inr [[1, 2, 3], [4, 5], [6, 7]]"
    by code_simp
  show ?thesis
    using chunk_even_roundtrip [of 3 "[1, 2, 3, 4, 5, 6, 7 :: nat]"] e by simp
qed

text \<open>
  Claim C2. Let \<open>maxLines \<ge> 1\<close> and let \<open>n\<close> be the number of lines of the group. If
  \<open>n \<le> maxLines\<close>, the result is the single chunk \<open>g\<close>. If \<open>n > maxLines\<close>, then with
  \<open>numChunks = \<lceil>n / maxLines\<rceil>\<close>, \<open>base = n div numChunks\<close> and \<open>rem = n mod numChunks\<close> the
  result has \<open>numChunks\<close> chunks, the first \<open>rem\<close> of them of \<open>base + 1\<close> lines and the other
  \<open>numChunks - rem\<close> of \<open>base\<close> lines, so that two chunk sizes differ by at most one.
\<close>

theorem chunk_even_distribution:
  assumes "1 \<le> maxl"
  shows "(int (length g) \<le> maxl \<longrightarrow> chunk_even g maxl = Inr [g]) \<and>
         (maxl < int (length g) \<longrightarrow>
            (\<exists>cs num base rem.
               chunk_even g maxl = Inr cs \<and>
               num = \<lceil>real (length g) / real_of_int maxl\<rceil> \<and>
               base = int (length g) div num \<and>
               rem = int (length g) mod num \<and>
               int (length cs) = num \<and>
               map length cs = replicate (nat rem) (nat (base + 1)) @ replicate (nat (num - rem)) (nat base) \<and>
               (\<forall>a\<in>set cs. \<forall>b\<in>set cs. length a \<le> length b + 1)))"
proof (intro conjI impI)
  assume "int (length g) \<le> maxl"
  then show "chunk_even g maxl = Inr [g]" by (simp add: chunk_even_def)
next
  assume big: "maxl < int (length g)"
  have pos: "0 < maxl" using assms by simp
  define num where "num = math_ceil_div (int (length g)) maxl"
  define base where "base = int (length g) div num"
  define rem where "rem = int (length g) mod num"
  note p = chunk_params[OF pos big, folded num_def, folded base_def rem_def]
  obtain cs where cs: "chunk_even g maxl = Inr cs"
    and len: "map length cs = replicate (nat rem) (nat (base + 1)) @ replicate (nat (num - rem)) (nat base)"
    using chunk_even_lengths[OF pos big] unfolding num_def base_def rem_def by blast
  have "length (map length cs) = nat rem + nat (num - rem)"
    unfolding len by simp
  then have n: "int (length cs) = num" using p(3,4) by simp
  have sizes: "length a = nat base \<or> length a = nat (base + 1)" if "a \<in> set cs" for a
  proof -
    from that have "length a \<in> set (map length cs)" by simp
    then show ?thesis unfolding len by (auto split: if_splits)
  qed
  have close: "\<forall>a\<in>set cs. \<forall>b\<in>set cs. length a \<le> length b + 1"
  proof (intro ballI)
    fix a b assume "a \<in> set cs" "b \<in> set cs"
    then show "length a \<le> length b + 1"
      using sizes[of a] sizes[of b] p(2) by auto
  qed
  have "num = \<lceil>real (length g) / real_of_int maxl\<rceil>"
    by (simp add: num_def math_ceil_div_def)
  with cs n len close show "\<exists>cs num base rem.
               chunk_even g maxl = Inr cs \<and>
               num = \<lceil>real (length g) / real_of_int maxl\<rceil> \<and>
               base = int (length g) div num \<and>
               rem = int (length g) mod num \<and>
               int (length cs) = num \<and>
               map length cs = replicate (nat rem) (nat (base + 1)) @ replicate (nat (num - rem)) (nat base) \<and>
               (\<forall>a\<in>set cs. \<forall>b\<in>set cs. length a \<le> length b + 1)"
    unfolding base_def rem_def by blast
qed

theorem chunk_even_distribution_witness:
  "(1::int) \<le> 3 \<and> 3 < int (length [1, 2, 3, 4, 5, 6, 7 :: nat]) \<and>
   chunk_even [1, 2, 3, 4, 5, 6, 7 :: nat] 3 = Inr [[1, 2, 3], [4, 5], [6, 7]] \<and>
   (\<exists>cs num base rem.
      chunk_even [1, 2, 3, 4, 5, 6, 7 :: nat] 3 = Inr cs \<and>
      num = \<lceil>real (length [1, 2, 3, 4, 5, 6, 7 :: nat]) / real_of_int 3\<rceil> \<and>
      base = int (length [1, 2, 3, 4, 5, 6, 7 :: nat]) div num \<and>
      rem = int (length [1, 2, 3, 4, 5, 6, 7 :: nat]) mod num \<and>
      int (length cs) = num \<and>
      map length cs = replicate (nat rem) (nat (base + 1)) @ replicate (nat (num - rem)) (nat base) \<and>
      (\<forall>a\<in>set cs. \<forall>b\<in>set cs. length a \<le> length b + 1)) \<and>
   (1::int) \<le> 5 \<and> int (length [1, 2, 3, 4, 5 :: nat]) \<le> 5 \<and>
   chunk_even [1, 2, 3, 4, 5 :: nat] 5 = Inr [[1, 2, 3, 4, 5]]"
proof -
  have e: "chunk_even [1, 2, 3, 4, 5, 6, 7 :: nat] 3 = Inr [[1, 2, 3], [4, 5], [6, 7]]"
    by code_simp
  have a: "(3::int) < int (length [1, 2, 3, 4, 5, 6, 7 :: nat])" by simp
  have b: "int (length [1, 2, 3, 4, 5 :: nat]) \<le> 5" by simp
  show ?thesis
    using chunk_even_distribution [of 3 "[1, 2, 3, 4, 5, 6, 7 :: nat]"]
      chunk_even_distribution [of 5 "[1, 2, 3, 4, 5 :: nat]"] e a b
    by (simp del: length_Cons list.size)
qed



lemma math_ceil_div_neg:
  assumes "maxl < 0" "0 \<le> n"
  shows "math_ceil_div n maxl = - (n div (- maxl))"
  using div_minus_minus[of n "- maxl"] by (simp add: math_ceil_div_code)

text \<open>
  Claim C9 (amended). No guard rejects a non-positive \<open>maxLines\<close>. For a non-empty group
  of \<open>n\<close> lines: \<open>maxLines = 0\<close> raises \<open>ZeroDivisionError\<close>; a negative \<open>maxLines\<close> with
  \<open>n < - maxLines\<close> raises \<open>ZeroDivisionError\<close> as well, since \<open>\<lceil>n / maxLines\<rceil>\<close> is then \<open>0\<close>
  and \<open>n // 0\<close> raises; a negative \<open>maxLines\<close> with \<open>- maxLines \<le> n\<close> returns the empty list
  of chunks, so that every line of the group is lost without an error.
\<close>

theorem chunk_even_nonpositive:
  assumes "g \<noteq> []"
  shows "(maxl = 0 \<longrightarrow> chunk_even g maxl = Inl ZeroDivisionError) \<and>
         (maxl < 0 \<and> int (length g) < - maxl \<longrightarrow> chunk_even g maxl = Inl ZeroDivisionError) \<and>
         (maxl < 0 \<and> - maxl \<le> int (length g) \<longrightarrow> chunk_even g maxl = Inr [])"
proof (intro conjI impI)
  have n: "0 < int (length g)" using assms by simp
  {
    assume "maxl = 0"
    then show "chunk_even g maxl = Inl ZeroDivisionError"
      using n by (simp add: chunk_even_def)
  next
    assume a: "maxl < 0 \<and> int (length g) < - maxl"
    then have "int (length g) div (- maxl) = 0"
      by (simp add: div_pos_pos_trivial)
    then have "math_ceil_div (int (length g)) maxl = 0"
      using a by (simp add: math_ceil_div_neg)
    then show "chunk_even g maxl = Inl ZeroDivisionError"
      using n a by (simp add: chunk_even_def)
  next
    assume a: "maxl < 0 \<and> - maxl \<le> int (length g)"
    then have "0 < int (length g) div (- maxl)"
      by (simp add: pos_imp_zdiv_pos_iff)
    then have neg: "math_ceil_div (int (length g)) maxl < 0"
      using a by (simp add: math_ceil_div_neg)
    then have "chunk_loop g (math_ceil_div (int (length g)) maxl) b r 0 0 [] = []" for b r
      by (subst chunk_loop.simps) simp
    then show "chunk_even g maxl = Inr []"
      using n a neg by (simp add: chunk_even_def Let_def)
  }
qed


theorem chunk_even_nonpositive_witness:
  "[1 :: nat] \<noteq> [] \<and> chunk_even [1 :: nat] 0 = Inl ZeroDivisionError \<and>
   (- 2 :: int) < 0 \<and> int (length [1 :: nat]) < - (- 2) \<and>
   chunk_even [1 :: nat] (- 2) = Inl ZeroDivisionError \<and>
   - (- 2) \<le> int (length [1, 2, 3 :: nat]) \<and>
   chunk_even [1, 2, 3 :: nat] (- 2) = Inr []"
  using chunk_even_nonpositive [of "[1 :: nat]" 0]
    chunk_even_nonpositive [of "[1 :: nat]" "- 2"]
    chunk_even_nonpositive [of "[1, 2, 3 :: nat]" "- 2"]
  by simp

text \<open>
  The claim as first stated, that a negative \<open>maxLines\<close> always gives the empty list, fails
  for the one-line group and \<open>maxLines = -2\<close>: \<open>1 / -2 = -0.5\<close>, its ceiling is \<open>0\<close>, and
  \<open>1 // 0\<close> raises.
\<close>

theorem chunk_even_negative_counterexample:
  "chunk_even [py ''la''] (- 2) \<noteq> Inr [] \<and>
   chunk_even [py ''la''] (- 2) = Inl ZeroDivisionError"
  by (simp add: chunk_even_def math_ceil_div_code)

subsection \<open>The grouper\<close>

lemma split_groups_close: "split_groups ls = close_buf (split_groups_loop ls [] [])"
  by (simp add: split_groups_def close_buf_def)

lemma loop_run:
  "[] \<notin> set r \<Longrightarrow> split_groups_loop (r @ rest) groups buf = split_groups_loop rest groups (buf @ r)"
  by (induction r arbitrary: buf) auto

lemma loop_blanks_empty_buf:
  "split_groups_loop (replicate m [] @ rest) groups [] = split_groups_loop rest groups []"
  by (induction m) auto

lemma loop_blanks_close:
  "buf \<noteq> [] \<Longrightarrow> 0 < m \<Longrightarrow>
   split_groups_loop (replicate m [] @ rest) groups buf = split_groups_loop rest (groups @ [buf]) []"
  by (cases m) (auto simp: loop_blanks_empty_buf)

lemma loop_runs:
  assumes "\<forall>(r, m)\<in>set rs. r \<noteq> [] \<and> [] \<notin> set r"
    and "\<forall>(r, m)\<in>set (butlast rs). 0 < m"
  shows "close_buf (split_groups_loop (concat (map (\<lambda>(r, m). r @ replicate m []) rs)) groups [])
         = groups @ map fst rs"
  using assms
proof (induction rs arbitrary: groups)
  case Nil
  then show ?case by (simp add: close_buf_def)
next
  case (Cons x rs)
  obtain r m where x: "x = (r, m)" by (cases x)
  have r: "r \<noteq> []" "[] \<notin> set r" using Cons.prems(1) x by auto
  show ?case
  proof (cases "rs = []")
    case True
    have "split_groups_loop (r @ replicate m []) groups [] = split_groups_loop (replicate m []) groups r"
      using loop_run[OF r(2), of "replicate m []" groups "[]"] by simp
    also have "close_buf \<dots> = groups @ [r]"
      using loop_blanks_close[OF r(1), of m "[]" groups] r(1)
      by (cases "m = 0") (simp_all add: close_buf_def)
    finally show ?thesis using True x by simp
  next
    case False
    then have m: "0 < m" using Cons.prems(2) x by simp
    have rest: "\<forall>(r, m)\<in>set rs. r \<noteq> [] \<and> [] \<notin> set r" "\<forall>(r, m)\<in>set (butlast rs). 0 < m"
      using Cons.prems False by auto
    let ?rest = "concat (map (\<lambda>(r, m). r @ replicate m []) rs)"
    have "split_groups_loop (r @ replicate m [] @ ?rest) groups []
          = split_groups_loop (replicate m [] @ ?rest) groups r"
      using loop_run[OF r(2), of "replicate m [] @ ?rest" groups "[]"] by simp
    also have "\<dots> = split_groups_loop ?rest (groups @ [r]) []"
      using loop_blanks_close[OF r(1) m] by simp
    finally show ?thesis
      using Cons.IH[OF rest, of "groups @ [r]"] x by simp
  qed
qed

lemma loop_concat:
  "concat (close_buf (split_groups_loop ls groups buf)) = concat groups @ buf @ filter (\<lambda>l. l \<noteq> []) ls"
  by (induction ls arbitrary: groups buf) (auto simp: close_buf_def)

lemma loop_nonempty:
  "[] \<notin> set groups \<Longrightarrow> [] \<notin> set (close_buf (split_groups_loop ls groups buf))"
proof (induction ls arbitrary: groups buf)
  case Nil
  then show ?case by (auto simp: close_buf_def)
next
  case (Cons l ls)
  show ?case
  proof (cases "l = []")
    case True
    show ?thesis
    proof (cases "buf = []")
      case True
      with \<open>l = []\<close> show ?thesis using Cons.IH[of groups buf] Cons.prems by simp
    next
      case False
      with \<open>l = []\<close> show ?thesis using Cons.IH[of "groups @ [buf]" "[]"] Cons.prems by simp
    qed
  next
    case False
    then show ?thesis using Cons.IH[of groups "buf @ [l]"] Cons.prems by simp
  qed
qed

lemma loop_all_blank:
  "\<forall>l\<in>set ls. l = [] \<Longrightarrow> split_groups_loop ls groups [] = (groups, [])"
  by (induction ls) auto


lemma lines_of_runs_complete:
  "\<exists>lead rs. ls = lines_of_runs lead rs \<and> valid_runs rs"
proof (induction ls)
  case Nil
  have "[] = lines_of_runs 0 [] \<and> valid_runs []"
    by (simp add: lines_of_runs_def valid_runs_def)
  then show ?case by blast
next
  case (Cons l ls)
  then obtain lead rs where ls: "ls = lines_of_runs lead rs" and v: "valid_runs rs" by blast
  show ?case
  proof (cases "l = []")
    case True
    then have "l # ls = lines_of_runs (Suc lead) rs"
      using ls by (simp add: lines_of_runs_def)
    with v show ?thesis by blast
  next
    case False
    show ?thesis
    proof (cases "rs = [] \<or> 0 < lead")
      case True
      have "l # ls = lines_of_runs 0 (([l], lead) # rs)"
        using ls by (simp add: lines_of_runs_def)
      moreover have "valid_runs (([l], lead) # rs)"
        using v True False by (auto simp: valid_runs_def)
      ultimately show ?thesis by blast
    next
      case False
      then obtain r m rest where rs: "rs = (r, m) # rest" and lead: "lead = 0"
        by (cases rs) auto
      have "l # ls = lines_of_runs 0 ((l # r, m) # rest)"
        using ls rs lead by (simp add: lines_of_runs_def)
      moreover have "valid_runs ((l # r, m) # rest)"
        using v rs \<open>l \<noteq> []\<close> by (auto simp: valid_runs_def)
      ultimately show ?thesis by blast
    qed
  qed
qed


text \<open>
  Claim C5. Every line sequence is some number of leading empty lines followed by \<open>k\<close>
  maximal runs of non-empty lines, each but the last followed by one or more empty lines
  (\<open>lines_of_runs lead rs\<close> with \<open>valid_runs rs\<close> and \<open>k = length rs\<close>). On such a sequence
  \<open>split_groups\<close> returns exactly the \<open>k\<close> runs, in order, each with its lines in their
  order. No group it returns is empty, and a sequence of empty lines only (or of no lines)
  gives no group.
\<close>

theorem split_groups_runs:
  assumes "valid_runs rs"
  shows "split_groups (lines_of_runs lead rs) = map fst rs \<and>
         length (split_groups (lines_of_runs lead rs)) = length rs \<and>
         [] \<notin> set (split_groups ls) \<and>
         ((\<forall>l\<in>set ls. l = []) \<longrightarrow> split_groups ls = []) \<and>
         (\<exists>lead' rs'. ls = lines_of_runs lead' rs' \<and> valid_runs rs')"
proof -
  have a: "\<forall>(r, m)\<in>set rs. r \<noteq> [] \<and> [] \<notin> set r" and b: "\<forall>(r, m)\<in>set (butlast rs). 0 < m"
    using assms by (simp_all add: valid_runs_def)
  have "split_groups (lines_of_runs lead rs) = map fst rs"
    using loop_runs[OF a b, of "[]"]
    by (simp add: split_groups_close lines_of_runs_def loop_blanks_empty_buf)
  moreover have "[] \<notin> set (split_groups ls)"
    using loop_nonempty[of "[]" ls "[]"] by (simp add: split_groups_close)
  moreover have "split_groups ls = []" if "\<forall>l\<in>set ls. l = []"
    using loop_all_blank[OF that, of "[]"] by (simp add: split_groups_def)
  ultimately show ?thesis using lines_of_runs_complete[of ls] by simp
qed

theorem split_groups_runs_witness:
  "valid_runs [([py ''a'', py ''b''], 1), ([py ''c''], 3), ([py ''d'', py ''e''], 0)] \<and>
   lines_of_runs 2 [([py ''a'', py ''b''], 1), ([py ''c''], 3), ([py ''d'', py ''e''], 0)]
     = [[], [], py ''a'', py ''b'', [], py ''c'', [], [], [], py ''d'', py ''e''] \<and>
   split_groups (lines_of_runs 2 [([py ''a'', py ''b''], 1), ([py ''c''], 3), ([py ''d'', py ''e''], 0)])
     = [[py ''a'', py ''b''], [py ''c''], [py ''d'', py ''e'']] \<and>
   split_groups [[], [], []] = []"
proof -
  have l: "lines_of_runs 2 [([py ''a'', py ''b''], 1), ([py ''c''], 3), ([py ''d'', py ''e''], 0)]
     = [[], [], py ''a'', py ''b'', [], py ''c'', [], [], [], py ''d'', py ''e'']"
    by code_simp
  have v: "valid_runs [([py ''a'', py ''b''], 1), ([py ''c''], 3), ([py ''d'', py ''e''], 0)]"
    by (simp add: valid_runs_def py_def)
  show ?thesis
    using split_groups_runs [OF v, of 2 "[[], [], []]"] l v
    by (simp add: py_def)
qed

text \<open>
  Claim C10. For every list of lines, the groups returned by \<open>split_groups\<close>, concatenated,
  are the input with the empty lines removed: grouping loses, duplicates and reorders no
  non-empty line.
\<close>

theorem split_groups_flatten:
  "concat (split_groups ls) = filter (\<lambda>l. l \<noteq> []) ls"
  using loop_concat[of ls "[]" "[]"] by (simp add: split_groups_close)

theorem split_groups_flatten_witness:
  "concat (split_groups [[], py ''a'', py ''b'', [], [], py ''c'']) = [py ''a'', py ''b'', py ''c'']"
  using split_groups_flatten [of "[[], py ''a'', py ''b'', [], [], py ''c'']"]
  by (simp add: py_def)

subsection \<open>The cleaner\<close>

lemma str_contains_single: "str_contains [c] s \<longleftrightarrow> c \<in> set s"
  by (induction s) auto


text \<open>
  Claim C6. For every group \<open>g\<close>, \<open>clean_group g\<close> is the subsequence of the lines of \<open>g\<close>
  that do not contain the character \<open>:\<close>, in their order; no line of the result contains
  a \<open>:\<close>.
\<close>

theorem clean_group_filter:
  "clean_group g = filter (\<lambda>line. of_char CHR '':'' \<notin> set line) g \<and>
   (\<forall>line\<in>set (clean_group g). of_char CHR '':'' \<notin> set line)"
  by (simp add: clean_group_def py_def str_contains_single)

theorem clean_group_filter_witness:
  "clean_group [py ''Verse 1:'', py ''la la'', py ''a:b'', py ''x''] = [py ''la la'', py ''x'']"
  using clean_group_filter [of "[py ''Verse 1:'', py ''la la'', py ''a:b'', py ''x'']"]
  by (simp add: py_def)


subsection \<open>The markup stripper\<close>

lemma first_some_all_None: "\<forall>k\<in>set ks. f k = None \<Longrightarrow> first_some (map f ks) = None"
  by (induction ks) auto

lemma re_match_Lit_only:
  "re_match [Lit c] s = (case s of [] \<Rightarrow> None | x # xs \<Rightarrow> if x = c then Some xs else None)"
  by (simp add: re_match.simps split: list.splits)

lemma drop_in_takeWhile:
  assumes "k < length (takeWhile (\<lambda>x. x \<noteq> c) xs)"
  shows "re_match [Lit c] (drop k xs) = None"
proof -
  have k: "k < length xs"
    using assms length_takeWhile_le[of "\<lambda>x. x \<noteq> c" xs] by simp
  have "takeWhile (\<lambda>x. x \<noteq> c) xs ! k \<in> set (takeWhile (\<lambda>x. x \<noteq> c) xs)"
    using assms by simp
  then have "takeWhile (\<lambda>x. x \<noteq> c) xs ! k \<noteq> c"
    by (blast dest: set_takeWhileD)
  then have "xs ! k \<noteq> c" using assms by (simp add: takeWhile_nth)
  moreover have "drop k xs = xs ! k # drop (Suc k) xs"
    using k by (simp add: Cons_nth_drop_Suc)
  ultimately show ?thesis by (simp add: re_match_Lit_only)
qed

lemma re_match_plus_lit:
  "re_match [PlusNot c, Lit c] xs =
     (if takeWhile (\<lambda>x. x \<noteq> c) xs \<noteq> [] \<and> c \<in> set xs
      then Some (tl (dropWhile (\<lambda>x. x \<noteq> c) xs)) else None)"
proof -
  define n where "n = length (takeWhile (\<lambda>x. x \<noteq> c) xs)"
  have unfold: "re_match [PlusNot c, Lit c] xs
      = first_some (map (\<lambda>k. re_match [Lit c] (drop k xs)) (rev [1..<Suc n]))"
    by (simp add: re_match.simps n_def)
  have dn: "drop n xs = dropWhile (\<lambda>x. x \<noteq> c) xs"
    unfolding n_def by (rule dropWhile_eq_drop[symmetric])
  show ?thesis
  proof (cases "n = 0")
    case True
    then show ?thesis using unfold by (simp add: n_def)
  next
    case False
    then have ne: "takeWhile (\<lambda>x. x \<noteq> c) xs \<noteq> []" by (simp add: n_def)
    have r: "rev [1..<Suc n] = n # rev [1..<n]" using False by simp
    show ?thesis
    proof (cases "c \<in> set xs")
      case True
      then have "dropWhile (\<lambda>x. x \<noteq> c) xs \<noteq> []" by (simp add: dropWhile_eq_Nil_conv)
      then obtain ys where ys: "dropWhile (\<lambda>x. x \<noteq> c) xs = c # ys"
        using hd_dropWhile[of "\<lambda>x. x \<noteq> c" xs] by (cases "dropWhile (\<lambda>x. x \<noteq> c) xs") auto
      then have "re_match [Lit c] (drop n xs) = Some ys"
        by (simp add: dn re_match_Lit_only)
      then show ?thesis using unfold r ne True ys by simp
    next
      case False
      then have all: "dropWhile (\<lambda>x. x \<noteq> c) xs = []" by (auto simp: dropWhile_eq_Nil_conv)
      have "re_match [Lit c] (drop n xs) = None"
        unfolding dn all by (simp add: re_match_Lit_only)
      moreover have "\<forall>k\<in>set (rev [1..<n]). re_match [Lit c] (drop k xs) = None"
        using drop_in_takeWhile[of _ c xs] by (simp add: n_def)
      ultimately show ?thesis
        using unfold r False first_some_all_None[of "rev [1..<n]" "\<lambda>k. re_match [Lit c] (drop k xs)"]
        by simp
    qed
  qed
qed

lemma re_match_bracket: "re_match bracket_re s = token_rest (of_char CHR ''['') (of_char CHR '']'') s"
proof (cases s)
  case Nil
  then show ?thesis by (simp add: bracket_re_def re_match.simps token_rest_def)
next
  case (Cons x xs)
  show ?thesis
  proof (cases xs)
    case Nil
    with Cons show ?thesis
      by (simp add: bracket_re_def re_match.simps(2,3) re_match_plus_lit token_rest_def)
  next
    case (Cons y ys)
    with \<open>s = x # xs\<close> show ?thesis
      by (simp add: bracket_re_def re_match.simps(2,3) re_match_plus_lit token_rest_def)
  qed
qed

lemma re_match_angle: "re_match angle_re s = token_rest (of_char CHR ''<'') (of_char CHR ''>'') s"
  by (cases s) (simp_all add: angle_re_def re_match.simps(2) re_match_plus_lit token_rest_def)

lemma re_sub_empty_remove_tokens:
  assumes "\<And>s. re_match p s = token_rest opn cls s"
  shows "re_sub_empty p s = remove_tokens opn cls s"
proof (induction s rule: length_induct)
  case (1 s)
  show ?case
  proof (cases s)
    case Nil
    then show ?thesis by (simp add: re_sub_empty.simps remove_tokens.simps)
  next
    case (Cons c cs)
    show ?thesis
    proof (cases "token_rest opn cls (c # cs)")
      case None
      have "re_sub_empty p (c # cs) = c # re_sub_empty p cs"
        by (simp add: re_sub_empty.simps assms None)
      then show ?thesis
        using 1 Cons by (simp add: remove_tokens.simps None)
    next
      case (Some r)
      have "re_sub_empty p (c # cs) = re_sub_empty p r"
        using token_rest_shorter[OF Some] by (simp add: re_sub_empty.simps assms Some)
      then show ?thesis
        using 1 Cons token_rest_shorter[OF Some] by (simp add: remove_tokens.simps Some)
    qed
  qed
qed


lemma token_rest_token:
  assumes "content \<noteq> []" "cls \<notin> set content"
  shows "token_rest opn cls (opn # content @ cls # post) = Some post"
proof -
  have "takeWhile (\<lambda>c. c \<noteq> cls) (content @ cls # post) = content"
    using assms(2) by (auto simp: takeWhile_tail)
  moreover have "dropWhile (\<lambda>c. c \<noteq> cls) (content @ cls # post) = cls # post"
    using assms(2) by (auto simp: dropWhile_append3)
  ultimately show ?thesis using assms(1) by (simp add: token_rest_def)
qed

lemma remove_tokens_token:
  assumes "opn \<notin> set pre" "content \<noteq> []" "cls \<notin> set content"
  shows "remove_tokens opn cls (pre @ opn # content @ cls # post) = pre @ remove_tokens opn cls post"
  using assms(1)
proof (induction pre)
  case Nil
  then show ?case
    using token_rest_token[OF assms(2,3), of opn post] by (simp add: remove_tokens.simps)
next
  case (Cons x pre)
  then have "token_rest opn cls (x # pre @ opn # content @ cls # post) = None"
    by (simp add: token_rest_def)
  with Cons show ?case by (simp add: remove_tokens.simps)
qed

lemma remove_tokens_none:
  "opn \<notin> set s \<or> cls \<notin> set s \<Longrightarrow> remove_tokens opn cls s = s"
proof (induction s)
  case Nil
  then show ?case by (simp add: remove_tokens.simps)
next
  case (Cons x s)
  then have "token_rest opn cls (x # s) = None"
    by (auto simp: token_rest_def)
  with Cons show ?case by (auto simp: remove_tokens.simps)
qed

lemma token_rest_suffix: "token_rest opn cls s = Some r \<Longrightarrow> \<exists>pre. s = pre @ r"
proof -
  assume a: "token_rest opn cls s = Some r"
  then obtain x xs where s: "s = x # xs" by (cases s) (simp_all add: token_rest_def)
  with a have r: "r = tl (dropWhile (\<lambda>c. c \<noteq> cls) xs)" and "cls \<in> set xs"
    by (simp_all add: token_rest_def split: if_splits)
  then have "dropWhile (\<lambda>c. c \<noteq> cls) xs \<noteq> []" by (simp add: dropWhile_eq_Nil_conv)
  then have "dropWhile (\<lambda>c. c \<noteq> cls) xs = hd (dropWhile (\<lambda>c. c \<noteq> cls) xs) # r"
    using r by simp
  then have "xs = takeWhile (\<lambda>c. c \<noteq> cls) xs @ hd (dropWhile (\<lambda>c. c \<noteq> cls) xs) # r"
    by (metis takeWhile_dropWhile_id)
  with s have "s = (x # takeWhile (\<lambda>c. c \<noteq> cls) xs @ [hd (dropWhile (\<lambda>c. c \<noteq> cls) xs)]) @ r"
    by simp
  then show ?thesis by blast
qed

lemma set_remove_tokens: "set (remove_tokens opn cls s) \<subseteq> set s"
proof (induction s rule: length_induct)
  case (1 s)
  show ?case
  proof (cases s)
    case Nil
    then show ?thesis by (simp add: remove_tokens.simps)
  next
    case (Cons c cs)
    show ?thesis
    proof (cases "token_rest opn cls (c # cs)")
      case None
      then show ?thesis using 1 Cons by (auto simp: remove_tokens.simps)
    next
      case (Some r)
      obtain pre where "c # cs = pre @ r" using token_rest_suffix[OF Some] by blast
      then have "set r \<subseteq> set (c # cs)" by (metis set_append sup_ge2)
      moreover have "set (remove_tokens opn cls r) \<subseteq> set r"
        using 1 Cons token_rest_shorter[OF Some] by simp
      ultimately show ?thesis using Cons by (auto simp: remove_tokens.simps Some)
    qed
  qed
qed

lemma has_token_append: "has_token opn cls r \<Longrightarrow> has_token opn cls (pre @ r)"
  by (induction pre) (auto simp del: has_token.simps(2) simp add: has_token.simps(2)[of _ _ _ "_ @ _"])

lemma token_rest_None_kept:
  assumes "c1 \<noteq> o2" and "token_rest o1 c1 (x # xs) = None"
  shows "token_rest o1 c1 (x # remove_tokens o2 c2 xs) = None"
proof (cases "x = o1")
  case False
  then show ?thesis by (simp add: token_rest_def)
next
  case True
  with assms(2) have "takeWhile (\<lambda>c. c \<noteq> c1) xs = [] \<or> c1 \<notin> set xs"
    by (simp add: token_rest_def split: if_splits)
  then show ?thesis
  proof
    assume "c1 \<notin> set xs"
    then have "c1 \<notin> set (remove_tokens o2 c2 xs)" using set_remove_tokens[of o2 c2 xs] by blast
    then show ?thesis by (simp add: token_rest_def)
  next
    assume t: "takeWhile (\<lambda>c. c \<noteq> c1) xs = []"
    show ?thesis
    proof (cases xs)
      case Nil
      then show ?thesis by (simp add: token_rest_def remove_tokens.simps)
    next
      case (Cons y ys)
      with t have "y = c1" by (simp split: if_splits)
      then have "token_rest o2 c2 (y # ys) = None" using assms(1) by (simp add: token_rest_def)
      then have "remove_tokens o2 c2 xs = c1 # remove_tokens o2 c2 ys"
        using Cons \<open>y = c1\<close> by (simp add: remove_tokens.simps)
      then show ?thesis by (simp add: token_rest_def)
    qed
  qed
qed

lemma no_token_preserved:
  assumes "c1 \<noteq> o2"
  shows "\<not> has_token o1 c1 s \<Longrightarrow> \<not> has_token o1 c1 (remove_tokens o2 c2 s)"
proof (induction s rule: length_induct)
  case (1 s)
  show ?case
  proof (cases s)
    case Nil
    then show ?thesis by (simp add: remove_tokens.simps)
  next
    case (Cons c cs)
    show ?thesis
    proof (cases "token_rest o2 c2 (c # cs)")
      case None
      have "token_rest o1 c1 (c # cs) = None" and "\<not> has_token o1 c1 cs"
        using 1(2) Cons by simp_all
      then have "token_rest o1 c1 (c # remove_tokens o2 c2 cs) = None"
        and "\<not> has_token o1 c1 (remove_tokens o2 c2 cs)"
        using token_rest_None_kept[OF assms] 1(1) Cons by simp_all
      then show ?thesis using Cons by (simp add: remove_tokens.simps None)
    next
      case (Some r)
      obtain pre where "c # cs = pre @ r" using token_rest_suffix[OF Some] by blast
      then have "\<not> has_token o1 c1 r"
        using 1(2) Cons has_token_append[of o1 c1 r pre] by auto
      then have "\<not> has_token o1 c1 (remove_tokens o2 c2 r)"
        using 1(1) Cons token_rest_shorter[OF Some] by simp
      then show ?thesis using Cons by (simp add: remove_tokens.simps Some)
    qed
  qed
qed

lemma no_token_remove_tokens:
  assumes "cls \<noteq> opn"
  shows "\<not> has_token opn cls (remove_tokens opn cls s)"
proof (induction s rule: length_induct)
  case (1 s)
  show ?case
  proof (cases s)
    case Nil
    then show ?thesis by (simp add: remove_tokens.simps)
  next
    case (Cons c cs)
    show ?thesis
    proof (cases "token_rest opn cls (c # cs)")
      case None
      then have "token_rest opn cls (c # remove_tokens opn cls cs) = None"
        using token_rest_None_kept[OF assms] by simp
      moreover have "\<not> has_token opn cls (remove_tokens opn cls cs)"
        using 1 Cons by simp
      ultimately show ?thesis using Cons by (simp add: remove_tokens.simps None)
    next
      case (Some r)
      then show ?thesis
        using 1 Cons token_rest_shorter[OF Some] by (simp add: remove_tokens.simps Some)
    qed
  qed
qed

lemma has_token_iff:
  "has_token opn cls s \<longleftrightarrow>
     (\<exists>pre content post. s = pre @ opn # content @ cls # post \<and> content \<noteq> [] \<and> cls \<notin> set content)"
proof
  show "has_token opn cls s \<Longrightarrow>
     \<exists>pre content post. s = pre @ opn # content @ cls # post \<and> content \<noteq> [] \<and> cls \<notin> set content"
  proof (induction s)
    case Nil
    then show ?case by simp
  next
    case (Cons c cs)
    show ?case
    proof (cases "has_token opn cls cs")
      case True
      then obtain pre content post
        where "cs = pre @ opn # content @ cls # post" "content \<noteq> []" "cls \<notin> set content"
        using Cons.IH by blast
      then have "c # cs = (c # pre) @ opn # content @ cls # post \<and> content \<noteq> [] \<and> cls \<notin> set content"
        by simp
      then show ?thesis by blast
    next
      case False
      with Cons.prems have t: "token_rest opn cls (c # cs) \<noteq> None" by simp
      let ?content = "takeWhile (\<lambda>x. x \<noteq> cls) cs"
      let ?rest = "dropWhile (\<lambda>x. x \<noteq> cls) cs"
      from t have c: "c = opn" and ne: "?content \<noteq> []" and mem: "cls \<in> set cs"
        by (simp_all add: token_rest_def split: if_splits)
      from mem have "?rest \<noteq> []" by (simp add: dropWhile_eq_Nil_conv)
      then have "?rest = cls # tl ?rest"
        using hd_dropWhile[of "\<lambda>x. x \<noteq> cls" cs] by (cases ?rest) auto
      then have "cs = ?content @ cls # tl ?rest"
        by (metis takeWhile_dropWhile_id)
      then have "c # cs = [] @ opn # ?content @ cls # tl ?rest" using c by simp
      moreover have "cls \<notin> set ?content" by (blast dest: set_takeWhileD)
      ultimately show ?thesis using ne by blast
    qed
  qed
next
  assume "\<exists>pre content post. s = pre @ opn # content @ cls # post \<and> content \<noteq> [] \<and> cls \<notin> set content"
  then obtain pre content post
    where s: "s = pre @ opn # content @ cls # post" and c: "content \<noteq> []" "cls \<notin> set content"
    by blast
  have "has_token opn cls (opn # content @ cls # post)"
    using token_rest_token[OF c, of opn post] by simp
  then show "has_token opn cls s"
    unfolding s by (rule has_token_append)
qed

lemma chordpro_loop_map:
  "chordpro_loop lines out =
     out @ map (\<lambda>l. re_sub_empty angle_re (re_sub_empty bracket_re l))
               (filter (\<lambda>l. \<not> (startswith l (py ''{'') \<and> endswith l (py ''}''))) (map strip lines))"
  by (induction lines arbitrary: out) (simp_all add: Let_def)

lemma startswith_single: "startswith l [c] \<longleftrightarrow> l \<noteq> [] \<and> hd l = c"
  by (cases l) (auto simp: startswith_def)

lemma endswith_single: "endswith l [c] \<longleftrightarrow> l \<noteq> [] \<and> last l = c"
proof (cases "l = []")
  case True
  then show ?thesis by (simp add: endswith_def)
next
  case False
  then have "drop (length l - Suc 0) l = [last l]"
    by (metis One_nat_def append_butlast_last_id append_eq_conv_conj length_butlast)
  with False show ?thesis by (auto simp: endswith_def Suc_le_eq)
qed


lemmas stripper_eval =
  py_def chordpro_to_plain_def splitlines_def is_linebreak_def strip_def isspace_def
  startswith_def endswith_def re_sub_empty.simps re_match.simps bracket_re_def angle_re_def Let_def

text \<open>
  Claim C4. For every raw document, the output of \<open>chordpro_to_plain\<close> is, in source
  order, one line for every source line whose trimmed form does not both start with \<open>{\<close>
  and end with \<open>}\<close>, and none for the others. The output line is the trimmed line from
  which the bracket tokens \<open>[...]\<close> have been removed and then the angle tokens \<open><...>\<close>
  (a token has a non-empty content without its closing character; the optional \<open>/\<close> of
  the pattern is part of that content). No output line contains a token of either kind;
  a token after a text without the opening character is removed and the text before it is
  kept as it is; a line without tokens, the empty line among them, is kept as it is.
\<close>

theorem chordpro_to_plain_lines:
  "chordpro_to_plain cp =
     map (\<lambda>l. remove_tokens (of_char CHR ''<'') (of_char CHR ''>'')
                (remove_tokens (of_char CHR ''['') (of_char CHR '']'') l))
         (filter (\<lambda>l. \<not> (l \<noteq> [] \<and> hd l = of_char CHR ''{'' \<and> last l = of_char CHR ''}''))
                 (map strip (splitlines cp))) \<and>
   (\<forall>out\<in>set (chordpro_to_plain cp).
      \<not> has_token (of_char CHR ''['') (of_char CHR '']'') out \<and>
      \<not> has_token (of_char CHR ''<'') (of_char CHR ''>'') out) \<and>
   (opn \<notin> set pre \<and> content \<noteq> [] \<and> cls \<notin> set content \<longrightarrow>
      remove_tokens opn cls (pre @ opn # content @ cls # post) = pre @ remove_tokens opn cls post) \<and>
   (opn \<notin> set s \<or> cls \<notin> set s \<longrightarrow> remove_tokens opn cls s = s)"
proof -
  let ?LB = "of_char CHR ''['' :: nat" and ?RB = "of_char CHR '']'' :: nat"
  let ?LT = "of_char CHR ''<'' :: nat" and ?GT = "of_char CHR ''>'' :: nat"
  have sub: "re_sub_empty angle_re (re_sub_empty bracket_re l)
             = remove_tokens ?LT ?GT (remove_tokens ?LB ?RB l)" for l
    using re_sub_empty_remove_tokens[of bracket_re ?LB ?RB, OF re_match_bracket]
      re_sub_empty_remove_tokens[of angle_re ?LT ?GT, OF re_match_angle]
    by simp
  have dir: "(startswith l (py ''{'') \<and> endswith l (py ''}''))
             \<longleftrightarrow> (l \<noteq> [] \<and> hd l = of_char CHR ''{'' \<and> last l = of_char CHR ''}'')" for l
    using startswith_single[of l "of_char CHR ''{''"] endswith_single[of l "of_char CHR ''}''"]
    by (auto simp: py_def)
  have shape: "chordpro_to_plain cp =
     map (\<lambda>l. remove_tokens ?LT ?GT (remove_tokens ?LB ?RB l))
         (filter (\<lambda>l. \<not> (l \<noteq> [] \<and> hd l = of_char CHR ''{'' \<and> last l = of_char CHR ''}''))
                 (map strip (splitlines cp)))"
    unfolding chordpro_to_plain_def chordpro_loop_map sub dir by simp
  have clean: "\<not> has_token ?LB ?RB (remove_tokens ?LT ?GT (remove_tokens ?LB ?RB l)) \<and>
               \<not> has_token ?LT ?GT (remove_tokens ?LT ?GT (remove_tokens ?LB ?RB l))" for l
  proof
    have "\<not> has_token ?LB ?RB (remove_tokens ?LB ?RB l)"
      by (rule no_token_remove_tokens) simp
    then show "\<not> has_token ?LB ?RB (remove_tokens ?LT ?GT (remove_tokens ?LB ?RB l))"
      by (rule no_token_preserved[rotated]) simp
    show "\<not> has_token ?LT ?GT (remove_tokens ?LT ?GT (remove_tokens ?LB ?RB l))"
      by (rule no_token_remove_tokens) simp
  qed
  have out: "\<forall>out\<in>set (chordpro_to_plain cp). \<not> has_token ?LB ?RB out \<and> \<not> has_token ?LT ?GT out"
    unfolding shape using clean by auto
  show ?thesis
    using shape out remove_tokens_token[of opn pre content cls post] remove_tokens_none[of opn s cls]
    by blast
qed


theorem chordpro_to_plain_lines_witness:
  "chordpro_to_plain (py ''{title: X}\<newline>  [C]Hello [G]world <i>x</i> \<newline>\<newline>Verse 1:\<newline>{c\<newline>la}'')
     = [py ''Hello world x'', [], py ''Verse 1:'', py ''{c'', py ''la}''] \<and>
   \<not> has_token (of_char CHR ''['') (of_char CHR '']'') (py ''Hello world x'') \<and>
   remove_tokens (of_char CHR ''['') (of_char CHR '']'') (py ''a[C]b'')
     = py ''a'' @ remove_tokens (of_char CHR ''['') (of_char CHR '']'') (py ''b'') \<and>
   remove_tokens (of_char CHR ''['') (of_char CHR '']'') (py ''b]'') = py ''b]''"
proof -
  have e: "chordpro_to_plain (py ''{title: X}\<newline>  [C]Hello [G]world <i>x</i> \<newline>\<newline>Verse 1:\<newline>{c\<newline>la}'')
     = [py ''Hello world x'', [], py ''Verse 1:'', py ''{c'', py ''la}'']"
    by (simp add: stripper_eval)
  have h: "\<not> has_token (of_char CHR ''['') (of_char CHR '']'') (py ''Hello world x'')"
    by (simp add: py_def token_rest_def)
  show ?thesis
    using chordpro_to_plain_lines [where cp = "py ''{title: X}\<newline>  [C]Hello [G]world <i>x</i> \<newline>\<newline>Verse 1:\<newline>{c\<newline>la}''"
        and opn = "of_char CHR ''[''" and cls = "of_char CHR '']''" and pre = "py ''a''"
        and content = "py ''C''" and post = "py ''b''" and s = "py ''b]''"] e h
    by (simp add: py_def)
qed

subsection \<open>The deck assembler\<close>

lemma chunks_loop_blocks: "chunks_loop chunks md = md @ blocks_of chunks"
  by (induction chunks arbitrary: md) (simp_all add: blocks_of_def)

lemma blocks_of_append: "blocks_of (a @ b) = blocks_of a @ blocks_of b"
  by (simp add: blocks_of_def)

lemma groups_loop_blocks:
  "groups_loop groups maxl md =
     (case group_chunks groups maxl of Inl e \<Rightarrow> Inl e | Inr chunks \<Rightarrow> Inr (md @ blocks_of chunks))"
proof (induction groups arbitrary: md)
  case Nil
  then show ?case by (simp add: blocks_of_def)
next
  case (Cons g groups)
  show ?case
    by (simp add: Cons.IH chunks_loop_blocks blocks_of_append Let_def split: sum.splits)
qed

lemma urls_loop_blocks:
  "urls_loop F D urls maxl md =
     (case url_chunks F D urls maxl of Inl e \<Rightarrow> Inl e | Inr chunks \<Rightarrow> Inr (md @ blocks_of chunks))"
proof (induction urls arbitrary: md)
  case Nil
  then show ?case by (simp add: blocks_of_def)
next
  case (Cons url urls)
  show ?case
    by (simp add: Cons.IH groups_loop_blocks blocks_of_append Let_def split: sum.splits)
qed


lemma str_join_Cons: "str_join sep (x # xs) = x @ concat (map (\<lambda>b. sep @ b) xs)"
  by (induction xs arbitrary: x) simp_all

lemma joined_blocks:
  "py ''\<newline>'' @ concat (map (\<lambda>b. py ''\<newline>'' @ b) (blocks_of chunks)) = deck_body chunks @ py ''\<newline>''"
  by (induction chunks) (simp_all add: blocks_of_def deck_body_def py_def)

lemma joined_deck:
  "str_join (py ''\<newline>'') (py ''---\<newline>'' # blocks_of chunks) = deck_text chunks @ py ''\<newline>''"
proof -
  have "str_join (py ''\<newline>'') (py ''---\<newline>'' # blocks_of chunks)
        = py ''---'' @ (py ''\<newline>'' @ concat (map (\<lambda>b. py ''\<newline>'' @ b) (blocks_of chunks)))"
    by (simp add: str_join_Cons py_def)
  then show ?thesis
    unfolding joined_blocks by (simp add: deck_text_def deck_body_def)
qed

lemma strip_core:
  assumes "s \<noteq> []" "\<not> isspace (hd s)" "\<not> isspace (last s)" "\<forall>c\<in>set w. isspace c"
  shows "strip (s @ w) = s"
proof -
  have a: "dropWhile isspace (s @ w) = s @ w"
    using assms(1,2) by (cases s) simp_all
  have "dropWhile isspace (rev w @ rev s) = dropWhile isspace (rev s)"
    using assms(4) by (intro dropWhile_append2) simp
  also have "\<dots> = rev s"
    using assms(1,3) by (cases "rev s") (auto simp: last_rev[symmetric] simp del: last_rev)
  finally show ?thesis by (simp add: strip_def a)
qed

lemma deck_text_ends: "deck_text chunks \<noteq> [] \<and> hd (deck_text chunks) = 45 \<and> last (deck_text chunks) = 45"
proof (induction chunks rule: rev_induct)
  case Nil
  then show ?case by (simp add: deck_text_def py_def)
next
  case (snoc c chunks)
  then show ?case by (simp add: deck_text_def py_def)
qed

lemma strip_deck: "strip (deck_text chunks @ py ''\<newline>'') = deck_text chunks"
  using deck_text_ends[of chunks]
  by (intro strip_core) (simp_all add: isspace_def py_def)

lemma generate_deck_text:
  "generate F D urls_field maxl =
     (case url_chunks F D (splitlines urls_field) maxl of
        Inl e \<Rightarrow> Inl e
      | Inr chunks \<Rightarrow> Inr (deck_text chunks))"
  by (simp add: generate_def urls_loop_blocks joined_deck[simplified] strip_deck split: sum.splits)


lemma split_on_sep: "c \<notin> set a \<Longrightarrow> split_on c (a @ c # b) = a # split_on c b"
  by (induction a) auto

lemma split_on_join:
  assumes "\<forall>l\<in>set ls. c \<notin> set l"
  shows "split_on c (str_join [c] ls @ c # rest) = (if ls = [] then [[]] else ls) @ split_on c rest"
  using assms
proof (induction "[c]" ls rule: str_join.induct)
  case 1
  then show ?case by simp
next
  case (2 x)
  then show ?case using split_on_sep[of c x rest] by simp
next
  case (3 x y ys)
  have "split_on c (x @ c # (str_join [c] (y # ys) @ c # rest)) = x # split_on c (str_join [c] (y # ys) @ c # rest)"
    using 3(2) by (intro split_on_sep) simp
  then show ?case using 3 by simp
qed

lemma split_on_deck_body:
  assumes "\<forall>chunk\<in>set chunks. \<forall>l\<in>set chunk. 10 \<notin> set l"
  shows "split_on 10 (py ''---'' @ deck_body chunks) = py ''---'' # concat (map chunk_lines chunks)"
  using assms
proof (induction chunks)
  case Nil
  then show ?case by (simp add: deck_body_def py_def)
next
  case (Cons chunk chunks)
  let ?r = "map (\<lambda>line. line @ py ''  '') chunk"
  have nl: "\<forall>l\<in>set ?r. 10 \<notin> set l"
    using Cons.prems by (auto simp: py_def)
  have body: "py ''---'' @ deck_body (chunk # chunks)
      = py ''---'' @ 10 # ([] @ 10 # (str_join [10] ?r @ 10 # ([] @ 10 # (py ''---'' @ deck_body chunks))))"
    by (simp add: deck_body_def py_def)
  have "split_on 10 (py ''---'' @ deck_body (chunk # chunks))
      = py ''---'' # [] # ((if ?r = [] then [[]] else ?r) @ [] # split_on 10 (py ''---'' @ deck_body chunks))"
    unfolding body
    using split_on_join[OF nl, of "[] @ 10 # (py ''---'' @ deck_body chunks)"]
      split_on_sep[of 10 "py ''---''"] split_on_sep[of 10 "[]"]
    by (simp add: py_def)
  then show ?case using Cons by (simp add: chunk_lines_def)
qed

lemma count_chunk_lines: "count_list (chunk_lines chunk) (py ''---'') = 1"
proof -
  have "line @ py ''  '' \<noteq> py ''---''" for line
  proof
    assume "line @ py ''  '' = py ''---''"
    then have "last (line @ py ''  '') = last (py ''---'')" by simp
    then show False by (simp add: py_def)
  qed
  then have "count_list (map (\<lambda>line. line @ py ''  '') chunk) (py ''---'') = 0"
    by (induction chunk) simp_all
  then show ?thesis by (simp add: chunk_lines_def py_def)
qed

lemma count_deck_lines:
  "count_list (py ''---'' # concat (map chunk_lines chunks)) (py ''---'') = length chunks + 1"
  by (induction chunks) (simp_all add: count_chunk_lines)

lemma deck_separators:
  assumes "\<forall>chunk\<in>set chunks. \<forall>l\<in>set chunk. 10 \<notin> set l"
  shows "count_list (split_on 10 (deck_text chunks)) (py ''---'') = length chunks + 1"
proof -
  have "deck_text chunks = py ''---'' @ deck_body chunks"
    by (simp add: deck_text_def deck_body_def)
  then show ?thesis
    using split_on_deck_body[OF assms] count_deck_lines[of chunks] by simp
qed


lemma splitlines_from_no_newline:
  "10 \<notin> set cur \<Longrightarrow> \<forall>l\<in>set (splitlines_from cur s). 10 \<notin> set l"
proof (induction s arbitrary: cur rule: length_induct)
  case (1 s)
  show ?case
  proof (cases s)
    case Nil
    then show ?thesis using 1(2) by simp
  next
    case (Cons c cs)
    have tl: "\<forall>l\<in>set (splitlines_from [] (tl cs)). 10 \<notin> set l"
      using 1(1)[rule_format, of "tl cs" "[]"] Cons by simp
    have rest: "\<forall>l\<in>set (splitlines_from [] cs). 10 \<notin> set l"
      using 1(1)[rule_format, of cs "[]"] Cons by simp
    have more: "\<not> is_linebreak c \<Longrightarrow> \<forall>l\<in>set (splitlines_from (cur @ [c]) cs). 10 \<notin> set l"
      using 1(1)[rule_format, of cs "cur @ [c]"] 1(2) Cons by (auto simp: is_linebreak_def)
    show ?thesis
      using Cons tl rest more 1(2) by simp
  qed
qed

lemma set_strip: "set (strip s) \<subseteq> set s"
proof -
  have "set (strip s) \<subseteq> set (dropWhile isspace s)"
    unfolding strip_def using set_dropWhileD[of _ isspace "rev (dropWhile isspace s)"] by auto
  then show ?thesis using set_dropWhileD[of _ isspace s] by blast
qed

lemma chordpro_to_plain_no_newline:
  "\<forall>l\<in>set (chordpro_to_plain cp). 10 \<notin> set l"
proof
  fix l assume "l \<in> set (chordpro_to_plain cp)"
  then obtain src where src: "src \<in> set (splitlines cp)"
    and l: "l = re_sub_empty angle_re (re_sub_empty bracket_re (strip src))"
    by (auto simp: chordpro_to_plain_def chordpro_loop_map)
  have "l = remove_tokens (of_char CHR ''<'') (of_char CHR ''>'')
              (remove_tokens (of_char CHR ''['') (of_char CHR '']'') (strip src))"
    unfolding l
    using re_sub_empty_remove_tokens[of bracket_re _ _, OF re_match_bracket]
      re_sub_empty_remove_tokens[of angle_re _ _, OF re_match_angle]
    by simp
  then have "set l \<subseteq> set src"
    using set_remove_tokens set_strip by (metis subset_trans)
  moreover have "10 \<notin> set src"
    using src splitlines_from_no_newline[of "[]" cp] by (simp add: splitlines_def)
  ultimately show "10 \<notin> set l" by blast
qed

lemma split_groups_lines: "g \<in> set (split_groups ls) \<Longrightarrow> set g \<subseteq> set ls"
proof -
  assume "g \<in> set (split_groups ls)"
  then have "set g \<subseteq> set (concat (split_groups ls))" by auto
  also have "\<dots> \<subseteq> set ls"
    using loop_concat[of ls "[]" "[]"] by (simp add: split_groups_close)
  finally show ?thesis .
qed

lemma chunk_even_lines:
  assumes "chunk_even g maxl = Inr cs"
  shows "set (concat cs) \<subseteq> set g"
proof (cases "1 \<le> maxl")
  case True
  then show ?thesis using chunk_even_concat[OF True, of g] assms by auto
next
  case False
  show ?thesis
  proof (cases "int (length g) \<le> maxl")
    case True
    then show ?thesis using assms by (auto simp: chunk_even_def)
  next
    case big: False
    then have neg: "maxl < 0" using False assms by (cases "maxl = 0") (simp_all add: chunk_even_def)
    have "math_ceil_div (int (length g)) maxl \<le> 0"
      using neg by (simp add: math_ceil_div_neg pos_imp_zdiv_nonneg_iff)
    then have "chunk_loop g (math_ceil_div (int (length g)) maxl) b r 0 0 [] = []" for b r
      by (subst chunk_loop.simps) simp
    then have "cs = []"
      using assms big neg by (simp add: chunk_even_def Let_def split: if_splits)
    then show ?thesis by simp
  qed
qed

lemma group_chunks_no_newline:
  assumes "group_chunks groups maxl = Inr chunks"
    and "\<forall>g\<in>set groups. \<forall>l\<in>set g. 10 \<notin> set l"
  shows "\<forall>chunk\<in>set chunks. \<forall>l\<in>set chunk. 10 \<notin> set l"
  using assms
proof (induction groups arbitrary: chunks)
  case Nil
  then show ?case by simp
next
  case (Cons g groups)
  show ?case
  proof (cases "clean_group g = []")
    case True
    then show ?thesis using Cons by simp
  next
    case False
    then obtain cs rest where cs: "chunk_even (clean_group g) maxl = Inr cs"
      and rest: "group_chunks groups maxl = Inr rest" and chunks: "chunks = cs @ rest"
      using Cons.prems(1) by (auto split: sum.splits)
    have "set (concat cs) \<subseteq> set g"
      using chunk_even_lines[OF cs] by (auto simp: clean_group_def)
    then have "\<forall>chunk\<in>set cs. \<forall>l\<in>set chunk. 10 \<notin> set l"
      using Cons.prems(2) by auto
    moreover have "\<forall>chunk\<in>set rest. \<forall>l\<in>set chunk. 10 \<notin> set l"
      using Cons.IH[OF rest] Cons.prems(2) by simp
    ultimately show ?thesis using chunks by auto
  qed
qed

lemma url_chunks_no_newline:
  assumes "url_chunks F D urls maxl = Inr chunks"
  shows "\<forall>chunk\<in>set chunks. \<forall>l\<in>set chunk. 10 \<notin> set l"
  using assms
proof (induction urls arbitrary: chunks)
  case Nil
  then show ?case by simp
next
  case (Cons url urls)
  show ?case
  proof (cases "strip url = []")
    case True
    then show ?thesis using Cons by simp
  next
    case False
    then obtain txt_url cp_text cs rest where "F (strip url) = Inr txt_url" "D txt_url = Inr cp_text"
      and cs: "group_chunks (split_groups (chordpro_to_plain cp_text)) maxl = Inr cs"
      and rest: "url_chunks F D urls maxl = Inr rest" and chunks: "chunks = cs @ rest"
      using Cons.prems by (auto split: sum.splits)
    have "\<forall>g\<in>set (split_groups (chordpro_to_plain cp_text)). \<forall>l\<in>set g. 10 \<notin> set l"
      using split_groups_lines chordpro_to_plain_no_newline by blast
    then have "\<forall>chunk\<in>set cs. \<forall>l\<in>set chunk. 10 \<notin> set l"
      by (rule group_chunks_no_newline[OF cs])
    then show ?thesis using Cons.IH[OF rest] chunks by auto
  qed
qed

text \<open>
  Claim C7. A run of \<open>generate\<close> fails exactly when a request or \<open>chunk_even\<close> fails, and
  otherwise returns the deck of the chunks it produced: the separator \<open>---\<close>, and for each
  chunk an empty line, every line of the chunk followed by exactly two spaces, an empty
  line and a separator. The deck starts with \<open>---\<close>, and the number of its lines that are
  the separator \<open>---\<close> is the number of chunks plus one (a lyric line is followed by two
  spaces, so it is never such a line).
\<close>

theorem generate_deck:
  "generate F D urls_field maxl =
     (case url_chunks F D (splitlines urls_field) maxl of
        Inl e \<Rightarrow> Inl e
      | Inr chunks \<Rightarrow> Inr (deck_text chunks)) \<and>
   (\<forall>chunks. url_chunks F D (splitlines urls_field) maxl = Inr chunks \<longrightarrow>
      take 3 (deck_text chunks) = py ''---'' \<and>
      count_list (split_on 10 (deck_text chunks)) (py ''---'') = length chunks + 1)"
  using generate_deck_text[of F D urls_field maxl] url_chunks_no_newline[of F D "splitlines urls_field" maxl]
    deck_separators
  by (auto simp: deck_text_def py_def)


theorem generate_deck_witness:
  "generate (\<lambda>u. Inr (u @ py ''.txt''))
     (\<lambda>u. if u = py ''a.txt''
          then Inr (py ''{t: x}\<newline>[C]one\<newline>two\<newline>three\<newline>\<newline>Chorus:\<newline>la'')
          else Inl (RequestError u))
     (py ''a\<newline>  \<newline>'') 2
   = Inr (py ''---\<newline>\<newline>one  \<newline>two  \<newline>\<newline>---\<newline>\<newline>three  \<newline>\<newline>---\<newline>\<newline>la  \<newline>\<newline>---'') \<and>
   take 3 (py ''---\<newline>\<newline>one  \<newline>two  \<newline>\<newline>---\<newline>\<newline>three  \<newline>\<newline>---\<newline>\<newline>la  \<newline>\<newline>---'') = py ''---'' \<and>
   count_list (split_on 10 (py ''---\<newline>\<newline>one  \<newline>two  \<newline>\<newline>---\<newline>\<newline>three  \<newline>\<newline>---\<newline>\<newline>la  \<newline>\<newline>---''))
     (py ''---'') = length [[py ''one'', py ''two''], [py ''three''], [py ''la'']] + 1"
proof -
  have c1: "chunk_even [py ''one'', py ''two'', py ''three''] 2 = Inr [[py ''one'', py ''two''], [py ''three'']]"
    by code_simp
  have c2: "chunk_even [py ''la''] 2 = Inr [[py ''la'']]"
    by (simp add: chunk_even_def)
  have u: "url_chunks (\<lambda>u. Inr (u @ py ''.txt''))
     (\<lambda>u. if u = py ''a.txt''
          then Inr (py ''{t: x}\<newline>[C]one\<newline>two\<newline>three\<newline>\<newline>Chorus:\<newline>la'')
          else Inl (RequestError u))
     (splitlines (py ''a\<newline>  \<newline>'')) 2
     = Inr [[py ''one'', py ''two''], [py ''three''], [py ''la'']]"
    using c1 c2 by (simp add: stripper_eval split_groups_def clean_group_def)
  show ?thesis
    using generate_deck [of "\<lambda>u. Inr (u @ py ''.txt'')"
        "\<lambda>u. if u = py ''a.txt''
          then Inr (py ''{t: x}\<newline>[C]one\<newline>two\<newline>three\<newline>\<newline>Chorus:\<newline>la'')
          else Inl (RequestError u)"
        "py ''a\<newline>  \<newline>''" 2] u
    by (simp add: deck_text_def py_def)
qed


subsection \<open>The build route\<close>

text \<open>
  Claim C8 (amended). Whenever the markdown is not blank and the external builder exits
  with a return code other than zero and with output that decodes to text, \<open>build\<close>
  answers with status 500 and a page that holds the command line (the argument vector
  joined by spaces) and the captured standard output and standard error as they are; the
  mapping \<open>builds\<close> is unchanged; and the temporary directory is removed with errors
  ignored: of the directory and the paths below it, those whose removal does not fail
  are gone and the others are left as the builder left them, so that the directory is
  gone when no removal fails. On every run, the mapping changes only when the builder
  has exited with return code zero.
\<close>

theorem build_failure:
  fixes st :: state and tmp_root markdown_field :: pystr
  defines "md_file \<equiv> os_path_join tmp_root (py ''slides.md'')"
    and "site_dir \<equiv> os_path_join tmp_root (py ''site'')"
  defines "argv \<equiv> [py ''mkslides'', py ''build'', md_file, py ''--site-dir'', site_dir]"
    and "files \<equiv> (fs st)(tmp_root \<mapsto> Dir, md_file \<mapsto> File (strip markdown_field))"
  shows "(strip markdown_field \<noteq> [] \<and> subprocess_run argv files = (Completed rc out err, files') \<and> rc \<noteq> 0 \<longrightarrow>
           (\<exists>body st'.
              build markdown_field tmp_root subprocess_run rm_fails st = (Page 500 body, st') \<and>
              body = py ''<h1>Build error</h1><h2>Command</h2><pre>'' @ str_join (py '' '') argv @
                     py ''</pre><h2>stdout</h2><pre>'' @ out @
                     py ''</pre><h2>stderr</h2><pre>'' @ err @ py ''</pre>'' \<and>
              builds st' = builds st \<and>
              (\<forall>p. p = tmp_root \<or> startswith p (tmp_root @ py ''/'') \<longrightarrow>
                   fs st' p = (if rm_fails p then files' p else None)))) \<and>
         (builds (snd (build markdown_field tmp_root subprocess_run rm_fails st)) \<noteq> builds st \<longrightarrow>
            strip markdown_field \<noteq> [] \<and>
            (\<exists>out err files'. subprocess_run argv files = (Completed 0 out err, files')))"
proof (intro conjI impI)
  assume a: "strip markdown_field \<noteq> [] \<and> subprocess_run argv files = (Completed rc out err, files') \<and> rc \<noteq> 0"
  have cmd: "py ''<h2>Command</h2><pre>mkslides build '' @ md_file @ py '' --site-dir '' @ site_dir
             = py ''<h2>Command</h2><pre>'' @ str_join (py '' '') argv"
    by (simp add: argv_def py_def)
  show "\<exists>body st'.
              build markdown_field tmp_root subprocess_run rm_fails st = (Page 500 body, st') \<and>
              body = py ''<h1>Build error</h1><h2>Command</h2><pre>'' @ str_join (py '' '') argv @
                     py ''</pre><h2>stdout</h2><pre>'' @ out @
                     py ''</pre><h2>stderr</h2><pre>'' @ err @ py ''</pre>'' \<and>
              builds st' = builds st \<and>
              (\<forall>p. p = tmp_root \<or> startswith p (tmp_root @ py ''/'') \<longrightarrow>
                   fs st' p = (if rm_fails p then files' p else None))"
    using a cmd unfolding argv_def files_def md_file_def site_dir_def
    by (simp add: build_def Let_def rmtree_def py_def)
next
  assume b: "builds (snd (build markdown_field tmp_root subprocess_run rm_fails st)) \<noteq> builds st"
  show "strip markdown_field \<noteq> []"
    using b by (auto simp: build_def Let_def)
  obtain p files' where r: "subprocess_run argv files = (p, files')" by (cases "subprocess_run argv files")
  show "\<exists>out err files'. subprocess_run argv files = (Completed 0 out err, files')"
  proof (cases p)
    case (Completed rc out err)
    then show ?thesis
      using b r \<open>strip markdown_field \<noteq> []\<close> unfolding argv_def files_def md_file_def site_dir_def
      by (cases "rc = 0") (auto simp: build_def Let_def)
  next
    case (Undecodable rc)
    then show ?thesis
      using b r \<open>strip markdown_field \<noteq> []\<close> unfolding argv_def files_def md_file_def site_dir_def
      by (auto simp: build_def Let_def)
  next
    case NotStarted
    then show ?thesis
      using b r \<open>strip markdown_field \<noteq> []\<close> unfolding argv_def files_def md_file_def site_dir_def
      by (auto simp: build_def Let_def)
  qed
qed

theorem build_failure_witness:
  "fst (build (py '' --- '') (py ''/tmp/mkslides_x'')
          (\<lambda>argv files. (Completed 1 (py ''out'') (py ''bad slide''), files(py ''/tmp/mkslides_x/site'' \<mapsto> Dir)))
          (\<lambda>p. False) \<lparr>builds = Map.empty, fs = Map.empty\<rparr>)
     = Page 500 (py ''<h1>Build error</h1><h2>Command</h2><pre>mkslides build /tmp/mkslides_x/slides.md --site-dir /tmp/mkslides_x/site</pre><h2>stdout</h2><pre>out</pre><h2>stderr</h2><pre>bad slide</pre>'') \<and>
   builds (snd (build (py '' --- '') (py ''/tmp/mkslides_x'')
          (\<lambda>argv files. (Completed 1 (py ''out'') (py ''bad slide''), files(py ''/tmp/mkslides_x/site'' \<mapsto> Dir)))
          (\<lambda>p. False) \<lparr>builds = Map.empty, fs = Map.empty\<rparr>)) = Map.empty \<and>
   fs (snd (build (py '' --- '') (py ''/tmp/mkslides_x'')
          (\<lambda>argv files. (Completed 1 (py ''out'') (py ''bad slide''), files(py ''/tmp/mkslides_x/site'' \<mapsto> Dir)))
          (\<lambda>p. False) \<lparr>builds = Map.empty, fs = Map.empty\<rparr>)) (py ''/tmp/mkslides_x'') = None \<and>
   fs (snd (build (py '' --- '') (py ''/tmp/mkslides_x'')
          (\<lambda>argv files. (Completed 1 (py ''out'') (py ''bad slide''), files(py ''/tmp/mkslides_x/site'' \<mapsto> Dir)))
          (\<lambda>p. False) \<lparr>builds = Map.empty, fs = Map.empty\<rparr>)) (py ''/tmp/mkslides_x/site'') = None \<and>
   builds (snd (build (py '' --- '') (py ''/tmp/mkslides_x'')
          (\<lambda>argv files. (Completed 0 (py ''out'') [], files(py ''/tmp/mkslides_x/site'' \<mapsto> Dir)))
          (\<lambda>p. False) \<lparr>builds = Map.empty, fs = Map.empty\<rparr>)) (py ''mkslides_x'') = Some (py ''/tmp/mkslides_x/site'')"
  using build_failure [of "py '' --- ''"
      "\<lambda>argv files. (Completed 1 (py ''out'') (py ''bad slide''), files(py ''/tmp/mkslides_x/site'' \<mapsto> Dir))"
      "py ''/tmp/mkslides_x''" "\<lparr>builds = Map.empty, fs = Map.empty\<rparr>" 1 "py ''out''" "py ''bad slide''"
      "(Map.empty(py ''/tmp/mkslides_x'' \<mapsto> Dir, py ''/tmp/mkslides_x/slides.md'' \<mapsto> File (py ''---'')))(py ''/tmp/mkslides_x/site'' \<mapsto> Dir)"
      "\<lambda>p. False"]
    build_failure [of "py '' --- ''"
      "\<lambda>argv files. (Completed 0 (py ''out'') [], files(py ''/tmp/mkslides_x/site'' \<mapsto> Dir))"
      "py ''/tmp/mkslides_x''" "\<lparr>builds = Map.empty, fs = Map.empty\<rparr>" _ _ _ _ "\<lambda>p. False"]
  by (simp add: build_def os_path_join_def os_path_basename_def rmtree_def startswith_def endswith_def
      strip_def isspace_def py_def Let_def)

text \<open>
  The claim as first stated, that every exit with a return code other than zero gives the
  error page and removes the temporary directory, fails in two ways. When the removal
  fails (here: of every path), the error page is returned and the directory is still
  there, since \<^verbatim>\<open>ignore_errors=True\<close> hides the failure. When the builder exits with code 1
  and output that is not valid text, \<^verbatim>\<open>UnicodeDecodeError\<close> leaves the route: there is no
  error page, and the directory is still there.
\<close>

theorem build_failure_counterexample:
  "fst (build (py ''---'') (py ''/tmp/mkslides_x'')
          (\<lambda>argv files. (Completed 1 (py ''out'') (py ''err''), files))
          (\<lambda>p. True) \<lparr>builds = Map.empty, fs = Map.empty\<rparr>)
     = Page 500 (py ''<h1>Build error</h1><h2>Command</h2><pre>mkslides build /tmp/mkslides_x/slides.md --site-dir /tmp/mkslides_x/site</pre><h2>stdout</h2><pre>out</pre><h2>stderr</h2><pre>err</pre>'') \<and>
   fs (snd (build (py ''---'') (py ''/tmp/mkslides_x'')
          (\<lambda>argv files. (Completed 1 (py ''out'') (py ''err''), files))
          (\<lambda>p. True) \<lparr>builds = Map.empty, fs = Map.empty\<rparr>)) (py ''/tmp/mkslides_x'') = Some Dir \<and>
   fst (build (py ''---'') (py ''/tmp/mkslides_x'')
          (\<lambda>argv files. (Undecodable 1, files))
          (\<lambda>p. False) \<lparr>builds = Map.empty, fs = Map.empty\<rparr>) = Failed UnicodeDecodeError \<and>
   fs (snd (build (py ''---'') (py ''/tmp/mkslides_x'')
          (\<lambda>argv files. (Undecodable 1, files))
          (\<lambda>p. False) \<lparr>builds = Map.empty, fs = Map.empty\<rparr>)) (py ''/tmp/mkslides_x'') = Some Dir"
  by (simp add: build_def os_path_join_def rmtree_def startswith_def endswith_def
      strip_def isspace_def py_def Let_def)

end
